theory Spec2Isabelle
  imports Main
begin

section \<open>The platform: JavaScript values, JSON text, localStorage\<close>

text \<open>
  The cart module (\<^verbatim>\<open>script.js\<close>) and the authentication module (\<^verbatim>\<open>auth.js\<close>) keep all
  their data in \<^verbatim>\<open>localStorage\<close> as JSON text. The values that \<^verbatim>\<open>JSON.parse\<close> can return
  are modelled by \<open>jsval\<close>. A number \<open>JNum m k\<close> denotes the decimal \<open>m / 10 ^ k\<close>; it is
  kept in normal form (\<open>k = 0\<close>, or \<open>m\<close> not divisible by ten). An object is the list of
  its own properties in insertion order.

  The model covers a fragment of the platform, and says so where it ends:
  \<^item> strings are lists of code units below 256 (an Isabelle \<open>char\<close>);
  \<^item> numbers are exact decimals, IEEE rounding is not modelled, and arithmetic is done on
    integers only;
  \<^item> property names that are array indices (which JavaScript enumerates first) are treated like
    every other name.
  Where an operation leaves the fragment the model answers \<open>Unmodelled\<close> rather than guess.
\<close>

datatype jsval =
    JNull
  | JBool bool
  | JNum int nat
  | JStr string
  | JArr "jsval list"
  | JObj "(string \<times> jsval) list"

datatype error = SyntaxError | TypeError | Unmodelled

abbreviation dquote :: char where "dquote \<equiv> CHR 0x22"
abbreviation backslash :: char where "backslash \<equiv> CHR 0x5C"

subsection \<open>Characters and digits\<close>

definition is_digit :: "char \<Rightarrow> bool" where
  "is_digit c = (48 \<le> (of_char c :: nat) \<and> (of_char c :: nat) \<le> 57)"

definition digit_val :: "char \<Rightarrow> nat" where
  "digit_val c = of_char c - 48"

definition digit_char :: "nat \<Rightarrow> char" where
  "digit_char d = char_of (48 + d)"

definition nat_of_digits :: "string \<Rightarrow> nat" where
  "nat_of_digits ds = foldl (\<lambda>a c. 10 * a + digit_val c) 0 ds"

fun show_nat :: "nat \<Rightarrow> string" where
  "show_nat n = (if n < 10 then [digit_char n] else show_nat (n div 10) @ [digit_char (n mod 10)])"

declare show_nat.simps [simp del]

definition is_ws :: "char \<Rightarrow> bool" where
  "is_ws c = (c = CHR 0x20 \<or> c = CHR 0x09 \<or> c = CHR 0x0A \<or> c = CHR 0x0D)"

definition skip_ws :: "string \<Rightarrow> string" where
  "skip_ws s = dropWhile is_ws s"

definition hex_val :: "char \<Rightarrow> nat option" where
  "hex_val c =
     (let n = (of_char c :: nat) in
      if 48 \<le> n \<and> n \<le> 57 then Some (n - 48)
      else if 65 \<le> n \<and> n \<le> 70 then Some (n - 55)
      else if 97 \<le> n \<and> n \<le> 102 then Some (n - 87)
      else None)"

definition hex_char :: "nat \<Rightarrow> char" where
  "hex_char d = (if d < 10 then char_of (48 + d) else char_of (87 + d))"

subsection \<open>JSON.stringify\<close>

text \<open>
  Numbers print as JavaScript prints them in the range where it uses no exponent: an
  optional sign, the integer digits, and for \<open>k > 0\<close> a point and exactly \<open>k\<close> fraction digits.
\<close>

definition show_num :: "int \<Rightarrow> nat \<Rightarrow> string" where
  "show_num m k =
     (let ds = show_nat (nat \<bar>m\<bar>);
          padded = replicate (Suc k - length ds) (CHR ''0'') @ ds;
          n = length padded - k
      in (if m < 0 then ''-'' else '''') @ take n padded
         @ (if k = 0 then '''' else CHR ''.'' # drop n padded))"

text \<open>
  \<^verbatim>\<open>QuoteJSONString\<close>: the quote and the backslash are escaped, the control characters have
  their short escapes or \<^verbatim>\<open>\u00XX\<close>, every other code unit stands for itself.
\<close>

definition escape_char :: "char \<Rightarrow> string" where
  "escape_char c =
     (if c = dquote then [backslash, dquote]
      else if c = backslash then [backslash, backslash]
      else if c = CHR 0x08 then [backslash, CHR ''b'']
      else if c = CHR 0x0C then [backslash, CHR ''f'']
      else if c = CHR 0x0A then [backslash, CHR ''n'']
      else if c = CHR 0x0D then [backslash, CHR ''r'']
      else if c = CHR 0x09 then [backslash, CHR ''t'']
      else if (of_char c :: nat) < 32
        then [backslash, CHR ''u'', CHR ''0'', CHR ''0'',
              hex_char (of_char c div 16), hex_char (of_char c mod 16)]
      else [c])"

fun quote_body :: "string \<Rightarrow> string" where
  "quote_body [] = [dquote]"
| "quote_body (c # cs) = escape_char c @ quote_body cs"

definition quote :: "string \<Rightarrow> string" where
  "quote s = dquote # quote_body s"

fun JSON_stringify :: "jsval \<Rightarrow> string"
  and stringify_elems :: "jsval list \<Rightarrow> string"
  and stringify_members :: "(string \<times> jsval) list \<Rightarrow> string" where
  "JSON_stringify JNull = ''null''"
| "JSON_stringify (JBool b) = (if b then ''true'' else ''false'')"
| "JSON_stringify (JNum m k) = show_num m k"
| "JSON_stringify (JStr s) = quote s"
| "JSON_stringify (JArr vs) = CHR ''['' # (if vs = [] then '']'' else stringify_elems vs)"
| "JSON_stringify (JObj kvs) = CHR ''{'' # (if kvs = [] then ''}'' else stringify_members kvs)"
| "stringify_elems [] = '']''"
| "stringify_elems (v # vs) =
     JSON_stringify v @ (if vs = [] then '']'' else CHR '','' # stringify_elems vs)"
| "stringify_members [] = ''}''"
| "stringify_members (kv # kvs) =
     quote (fst kv) @ CHR '':'' # JSON_stringify (snd kv)
       @ (if kvs = [] then ''}'' else CHR '','' # stringify_members kvs)"

subsection \<open>JSON.parse\<close>

fun normalise :: "int \<Rightarrow> nat \<Rightarrow> int \<times> nat" where
  "normalise m 0 = (m, 0)"
| "normalise m (Suc k) = (if m mod 10 = 0 then normalise (m div 10) k else (m, Suc k))"

definition mk_num :: "bool \<Rightarrow> nat \<Rightarrow> int \<Rightarrow> int \<Rightarrow> int \<times> nat" where
  "mk_num neg m k ex =
     (let sm = (if neg then - int m else int m); net = ex - k
      in if 0 \<le> net then (sm * 10 ^ nat net, 0) else normalise sm (nat (- net)))"

definition parse_frac :: "string \<Rightarrow> error + (string \<times> string)" where
  "parse_frac s =
     (case s of
        [] \<Rightarrow> Inr ([], s)
      | c # r \<Rightarrow>
          if c = CHR ''.''
          then (if takeWhile is_digit r = [] then Inl SyntaxError
                else Inr (takeWhile is_digit r, dropWhile is_digit r))
          else Inr ([], s))"

definition parse_exp :: "string \<Rightarrow> error + (int \<times> string)" where
  "parse_exp s =
     (case s of
        [] \<Rightarrow> Inr (0, s)
      | c # r \<Rightarrow>
          if c = CHR ''e'' \<or> c = CHR ''E''
          then (let neg = (r \<noteq> [] \<and> hd r = CHR ''-'');
                    r1 = (if r \<noteq> [] \<and> (hd r = CHR ''-'' \<or> hd r = CHR ''+'') then tl r else r);
                    ds = takeWhile is_digit r1
                in if ds = [] then Inl SyntaxError
                   else Inr ((if neg then - int (nat_of_digits ds) else int (nat_of_digits ds)),
                             dropWhile is_digit r1))
          else Inr (0, s))"

definition parse_number_tail :: "bool \<Rightarrow> string \<Rightarrow> string \<Rightarrow> error + ((int \<times> nat) \<times> string)" where
  "parse_number_tail neg ip s2 =
     (case parse_frac s2 of
        Inl e \<Rightarrow> Inl e
      | Inr (fd, s3) \<Rightarrow>
          (case parse_exp s3 of
             Inl e \<Rightarrow> Inl e
           | Inr (ex, s4) \<Rightarrow>
               Inr (mk_num neg (nat_of_digits (ip @ fd)) (int (length fd)) ex, s4)))"

text \<open>
  The number grammar: an optional minus, then a single \<^verbatim>\<open>0\<close> or digits that do not start with
  \<^verbatim>\<open>0\<close>, then an optional fraction and an optional exponent.
\<close>

definition parse_number :: "string \<Rightarrow> error + ((int \<times> nat) \<times> string)" where
  "parse_number s =
     (let neg = (s \<noteq> [] \<and> hd s = CHR ''-'');
          s1 = (if neg then tl s else s)
      in if s1 = [] \<or> \<not> is_digit (hd s1) then Inl SyntaxError
         else if hd s1 = CHR ''0'' then parse_number_tail neg ''0'' (tl s1)
         else parse_number_tail neg (takeWhile is_digit s1) (dropWhile is_digit s1))"

definition unescape :: "char \<Rightarrow> char option" where
  "unescape e =
     (if e = dquote then Some dquote
      else if e = backslash then Some backslash
      else if e = CHR ''/'' then Some (CHR ''/'')
      else if e = CHR ''b'' then Some (CHR 0x08)
      else if e = CHR ''f'' then Some (CHR 0x0C)
      else if e = CHR ''n'' then Some (CHR 0x0A)
      else if e = CHR ''r'' then Some (CHR 0x0D)
      else if e = CHR ''t'' then Some (CHR 0x09)
      else None)"

definition hex4 :: "string \<Rightarrow> nat option" where
  "hex4 s =
     (case map hex_val (take 4 s) of
        [Some a, Some b, Some c, Some d] \<Rightarrow> Some (((a * 16 + b) * 16 + c) * 16 + d)
      | _ \<Rightarrow> None)"

definition cons_char :: "char \<Rightarrow> error + (string \<times> string) \<Rightarrow> error + (string \<times> string)" where
  "cons_char c res = (case res of Inl e \<Rightarrow> Inl e | Inr (s, r) \<Rightarrow> Inr (c # s, r))"

text \<open>The characters of a string literal, after its opening quote, up to the closing one.\<close>

fun parse_chars :: "string \<Rightarrow> error + (string \<times> string)" where
  "parse_chars [] = Inl SyntaxError"
| "parse_chars (c # r) =
     (if c = dquote then Inr ([], r)
      else if c = backslash then
        (case r of
           [] \<Rightarrow> Inl SyntaxError
         | e # r' \<Rightarrow>
             if e = CHR ''u'' then
               (case hex4 r' of
                  None \<Rightarrow> Inl SyntaxError
                | Some n \<Rightarrow>
                    if n < 256 then cons_char (char_of n) (parse_chars (drop 4 r'))
                    else Inl Unmodelled)
             else
               (case unescape e of
                  None \<Rightarrow> Inl SyntaxError
                | Some ch \<Rightarrow> cons_char ch (parse_chars r')))
      else if (of_char c :: nat) < 32 then Inl SyntaxError
      else cons_char c (parse_chars r))"

text \<open>
  A property that is set twice keeps its first position and its last value.
\<close>

fun obj_set :: "(string \<times> jsval) list \<Rightarrow> string \<Rightarrow> jsval \<Rightarrow> (string \<times> jsval) list" where
  "obj_set [] k v = [(k, v)]"
| "obj_set (p # ps) k v = (if fst p = k then (k, v) # ps else p # obj_set ps k v)"

definition mk_obj :: "(string \<times> jsval) list \<Rightarrow> (string \<times> jsval) list" where
  "mk_obj kvs = foldl (\<lambda>acc kv. obj_set acc (fst kv) (snd kv)) [] kvs"

text \<open>
  The three mutually recursive productions: a value, the elements of a non-empty array after
  its bracket, the members of a non-empty object after its brace. The tests
  \<open>length _ < length s\<close> make the recursion well-founded; they never fail, since a value
  takes at least one character (lemma \<open>parse_sound\<close>).
\<close>

lemma length_skip_ws: "length (skip_ws s) \<le> length s"
  by (simp add: skip_ws_def length_dropWhile_le)

lemma skip_ws_Cons_shorter: "skip_ws s = c # r \<Longrightarrow> length r < length s"
  using length_skip_ws [of s] by simp

function parse_value :: "string \<Rightarrow> error + (jsval \<times> string)"
  and parse_elems :: "string \<Rightarrow> error + (jsval list \<times> string)"
  and parse_members :: "string \<Rightarrow> error + ((string \<times> jsval) list \<times> string)" where
  "parse_value s =
     (case skip_ws s of
        [] \<Rightarrow> Inl SyntaxError
      | c # r \<Rightarrow>
          if c = CHR ''['' then
            (if skip_ws r \<noteq> [] \<and> hd (skip_ws r) = CHR '']'' then Inr (JArr [], tl (skip_ws r))
             else (case parse_elems r of
                     Inl e \<Rightarrow> Inl e
                   | Inr (vs, r') \<Rightarrow> Inr (JArr vs, r')))
          else if c = CHR ''{'' then
            (if skip_ws r \<noteq> [] \<and> hd (skip_ws r) = CHR ''}'' then Inr (JObj [], tl (skip_ws r))
             else (case parse_members r of
                     Inl e \<Rightarrow> Inl e
                   | Inr (kvs, r') \<Rightarrow> Inr (JObj (mk_obj kvs), r')))
          else if c = dquote then
            (case parse_chars r of
               Inl e \<Rightarrow> Inl e
             | Inr (str, r') \<Rightarrow> Inr (JStr str, r'))
          else if c = CHR ''-'' \<or> is_digit c then
            (case parse_number (c # r) of
               Inl e \<Rightarrow> Inl e
             | Inr (mk, r') \<Rightarrow> Inr (JNum (fst mk) (snd mk), r'))
          else if take 4 (c # r) = ''null'' then Inr (JNull, drop 3 r)
          else if take 4 (c # r) = ''true'' then Inr (JBool True, drop 3 r)
          else if take 5 (c # r) = ''false'' then Inr (JBool False, drop 4 r)
          else Inl SyntaxError)"
| "parse_elems s =
     (case parse_value s of
        Inl e \<Rightarrow> Inl e
      | Inr (v, r) \<Rightarrow>
          (case skip_ws r of
             [] \<Rightarrow> Inl SyntaxError
           | c # r' \<Rightarrow>
               if c = CHR '']'' then Inr ([v], r')
               else if c = CHR '','' \<and> length r' < length s then
                 (case parse_elems r' of
                    Inl e \<Rightarrow> Inl e
                  | Inr (vs, r'') \<Rightarrow> Inr (v # vs, r''))
               else Inl SyntaxError))"
| "parse_members s =
     (case skip_ws s of
        [] \<Rightarrow> Inl SyntaxError
      | c # r \<Rightarrow>
          if c \<noteq> dquote then Inl SyntaxError
          else
            (case parse_chars r of
               Inl e \<Rightarrow> Inl e
             | Inr (k, r1) \<Rightarrow>
                 (case skip_ws r1 of
                    [] \<Rightarrow> Inl SyntaxError
                  | c1 # r2 \<Rightarrow>
                      if c1 = CHR '':'' \<and> length r2 < length s then
                        (case parse_value r2 of
                           Inl e \<Rightarrow> Inl e
                         | Inr (v, r3) \<Rightarrow>
                             (case skip_ws r3 of
                                [] \<Rightarrow> Inl SyntaxError
                              | c3 # r4 \<Rightarrow>
                                  if c3 = CHR ''}'' then Inr ([(k, v)], r4)
                                  else if c3 = CHR '','' \<and> length r4 < length s then
                                    (case parse_members r4 of
                                       Inl e \<Rightarrow> Inl e
                                     | Inr (kvs, r5) \<Rightarrow> Inr ((k, v) # kvs, r5))
                                  else Inl SyntaxError))
                      else Inl SyntaxError)))"
  by pat_completeness auto

termination
  by (relation "measure (\<lambda>x. case x of
          Inl s \<Rightarrow> 2 * length s + 1
        | Inr (Inl s) \<Rightarrow> 2 * length s + 2
        | Inr (Inr s) \<Rightarrow> 2 * length s + 2)")
     (auto dest: skip_ws_Cons_shorter)

declare parse_value.simps [simp del] parse_elems.simps [simp del] parse_members.simps [simp del]

definition JSON_parse :: "string \<Rightarrow> error + jsval" where
  "JSON_parse s =
     (case parse_value s of
        Inl e \<Rightarrow> Inl e
      | Inr (v, r) \<Rightarrow> if skip_ws r = [] then Inr v else Inl SyntaxError)"

subsection \<open>Values that survive a round trip through JSON text\<close>

text \<open>
  A value is well-formed when its numbers are in normal form and no object has two
  properties of one name. These are the values \<^verbatim>\<open>JSON.parse\<close> builds.
\<close>

definition num_ok :: "int \<Rightarrow> nat \<Rightarrow> bool" where
  "num_ok m k = (k = 0 \<or> m mod 10 \<noteq> 0)"

fun wf_json :: "jsval \<Rightarrow> bool"
  and wf_elems :: "jsval list \<Rightarrow> bool"
  and wf_members :: "(string \<times> jsval) list \<Rightarrow> bool" where
  "wf_json JNull = True"
| "wf_json (JBool b) = True"
| "wf_json (JNum m k) = num_ok m k"
| "wf_json (JStr s) = True"
| "wf_json (JArr vs) = wf_elems vs"
| "wf_json (JObj kvs) = (distinct (map fst kvs) \<and> wf_members kvs)"
| "wf_elems [] = True"
| "wf_elems (v # vs) = (wf_json v \<and> wf_elems vs)"
| "wf_members [] = True"
| "wf_members (kv # kvs) = (wf_json (snd kv) \<and> wf_members kvs)"

subsection \<open>The operators of the language that the cart code applies to parsed values\<close>

text \<open>\<^verbatim>\<open>ToBoolean\<close>, as in \<^verbatim>\<open>user ? ... : ...\<close> and \<^verbatim>\<open>!user\<close>.\<close>

fun truthy :: "jsval \<Rightarrow> bool" where
  "truthy JNull = False"
| "truthy (JBool b) = b"
| "truthy (JNum m k) = (m \<noteq> 0)"
| "truthy (JStr s) = (s \<noteq> [])"
| "truthy (JArr vs) = True"
| "truthy (JObj kvs) = True"

text \<open>
  Reading one of the properties \<^verbatim>\<open>email\<close>, \<^verbatim>\<open>id\<close>, \<^verbatim>\<open>qty\<close>, \<^verbatim>\<open>description\<close>: \<^verbatim>\<open>null\<close> has no
  properties (a \<^verbatim>\<open>TypeError\<close>), an object has its own ones, and a primitive or an array has
  none of these names (\<open>None\<close> is \<^verbatim>\<open>undefined\<close>).
\<close>

fun get_prop :: "jsval \<Rightarrow> string \<Rightarrow> error + jsval option" where
  "get_prop JNull k = Inl TypeError"
| "get_prop (JObj kvs) k = Inr (map_of kvs k)"
| "get_prop v k = Inr None"

text \<open>
  \<^verbatim>\<open>===\<close> between a value read from a parsed cart and a value from elsewhere: primitives are
  compared by value, and an array or object of the cart is never the same reference as
  anything the caller holds.
\<close>

fun strict_eq :: "jsval option \<Rightarrow> jsval option \<Rightarrow> bool" where
  "strict_eq None None = True"
| "strict_eq (Some JNull) (Some JNull) = True"
| "strict_eq (Some (JBool a)) (Some (JBool b)) = (a = b)"
| "strict_eq (Some (JNum m k)) (Some (JNum m' k')) = (m = m' \<and> k = k')"
| "strict_eq (Some (JStr a)) (Some (JStr b)) = (a = b)"
| "strict_eq x y = False"

text \<open>\<^verbatim>\<open>ToString\<close>, as a template literal applies it.\<close>

fun join_comma :: "string list \<Rightarrow> string" where
  "join_comma [] = []"
| "join_comma [x] = x"
| "join_comma (x # y # zs) = x @ CHR '','' # join_comma (y # zs)"

fun to_string :: "jsval \<Rightarrow> string" where
  "to_string JNull = ''null''"
| "to_string (JBool b) = (if b then ''true'' else ''false'')"
| "to_string (JNum m k) = show_num m k"
| "to_string (JStr s) = s"
| "to_string (JArr vs) = join_comma (map (\<lambda>v. if v = JNull then [] else to_string v) vs)"
| "to_string (JObj kvs) = ''[object Object]''"

definition to_string_opt :: "jsval option \<Rightarrow> string" where
  "to_string_opt x = (case x of None \<Rightarrow> ''undefined'' | Some v \<Rightarrow> to_string v)"

text \<open>The own enumerable properties that \<^verbatim>\<open>{...product}\<close> copies.\<close>

fun indexed :: "nat \<Rightarrow> jsval list \<Rightarrow> (string \<times> jsval) list" where
  "indexed n [] = []"
| "indexed n (v # vs) = (show_nat n, v) # indexed (Suc n) vs"

fun own_props :: "jsval \<Rightarrow> (string \<times> jsval) list" where
  "own_props (JObj kvs) = kvs"
| "own_props (JArr vs) = indexed 0 vs"
| "own_props (JStr s) = indexed 0 (map (\<lambda>c. JStr [c]) s)"
| "own_props v = []"

text \<open>
  The array methods, with a callback that may raise. A receiver that is not an array has no
  such method: calling it is a \<^verbatim>\<open>TypeError\<close>.
\<close>

fun as_array :: "jsval \<Rightarrow> error + jsval list" where
  "as_array (JArr vs) = Inr vs"
| "as_array v = Inl TypeError"

fun js_some :: "(jsval \<Rightarrow> error + bool) \<Rightarrow> jsval list \<Rightarrow> error + bool" where
  "js_some p [] = Inr False"
| "js_some p (x # xs) =
     (case p x of
        Inl e \<Rightarrow> Inl e
      | Inr b \<Rightarrow> if b then Inr True else js_some p xs)"

fun js_find_index :: "(jsval \<Rightarrow> error + bool) \<Rightarrow> jsval list \<Rightarrow> error + nat option" where
  "js_find_index p [] = Inr None"
| "js_find_index p (x # xs) =
     (case p x of
        Inl e \<Rightarrow> Inl e
      | Inr b \<Rightarrow>
          if b then Inr (Some 0)
          else (case js_find_index p xs of
                  Inl e \<Rightarrow> Inl e
                | Inr None \<Rightarrow> Inr None
                | Inr (Some i) \<Rightarrow> Inr (Some (Suc i))))"

fun js_filter :: "(jsval \<Rightarrow> error + bool) \<Rightarrow> jsval list \<Rightarrow> error + jsval list" where
  "js_filter p [] = Inr []"
| "js_filter p (x # xs) =
     (case p x of
        Inl e \<Rightarrow> Inl e
      | Inr b \<Rightarrow>
          (case js_filter p xs of
             Inl e \<Rightarrow> Inl e
           | Inr ys \<Rightarrow> Inr (if b then x # ys else ys)))"

text \<open>The callbacks \<^verbatim>\<open>i => i.id === id\<close> and \<^verbatim>\<open>i => i.id !== id\<close>.\<close>

definition id_is :: "jsval option \<Rightarrow> jsval \<Rightarrow> error + bool" where
  "id_is x item = (case get_prop item ''id'' of Inl e \<Rightarrow> Inl e | Inr v \<Rightarrow> Inr (strict_eq v x))"

definition id_is_not :: "jsval option \<Rightarrow> jsval \<Rightarrow> error + bool" where
  "id_is_not x item =
     (case get_prop item ''id'' of Inl e \<Rightarrow> Inl e | Inr v \<Rightarrow> Inr (\<not> strict_eq v x))"

section \<open>The browser state\<close>

text \<open>
  \<^verbatim>\<open>localStorage\<close> maps keys to strings. Of the document, the model keeps the three surfaces
  the cart code looks up by id (each may be absent), and the navigation target, which is
  \<^verbatim>\<open>window.mockHref\<close> under test and \<^verbatim>\<open>window.location.href\<close> otherwise. A write to
  \<^verbatim>\<open>localStorage\<close> always succeeds: the storage quota is not modelled.
\<close>

record element =
  el_text :: string
  el_classes :: "string list"

datatype checkout_view = Blank | EmptyNotice | Listing "jsval list"

record js_state =
  localStorage :: "string \<rightharpoonup> string"
  cart_count_el :: "element option"
  floating_message_el :: "element option"
  checkout_container :: "checkout_view option"
  mockHref :: "string option"
  location_href :: string

text \<open>\<^verbatim>\<open>localStorage.getItem(key) || fallback\<close>: a missing entry and the empty string are falsy.\<close>

definition getItem_or :: "js_state \<Rightarrow> string \<Rightarrow> string \<Rightarrow> string" where
  "getItem_or s key fallback =
     (case localStorage s key of
        None \<Rightarrow> fallback
      | Some v \<Rightarrow> if v = [] then fallback else v)"

section \<open>auth.js\<close>

definition navigateTo :: "string \<Rightarrow> js_state \<Rightarrow> js_state" where
  "navigateTo url s =
     (case mockHref s of
        Some old \<Rightarrow> s\<lparr>mockHref := Some url\<rparr>
      | None \<Rightarrow> s\<lparr>location_href := url\<rparr>)"

text \<open>
  \<^verbatim>\<open>validateEmail(email)\<close> is \<^verbatim>\<open>/\S+@\S+\.\S+/.test(email)\<close>: somewhere in the string a
  non-space character stands before an \<^verbatim>\<open>@\<close>, and after the \<^verbatim>\<open>@\<close> come non-space characters,
  among them, not first and not last, a dot. The registration and login forms store a
  principal only for an email that passes.
\<close>

definition is_space :: "char \<Rightarrow> bool" where
  "is_space c = ((9 \<le> (of_char c :: nat) \<and> (of_char c :: nat) \<le> 13)
                 \<or> (of_char c :: nat) = 32 \<or> (of_char c :: nat) = 160)"

fun dot_then_more :: "string \<Rightarrow> bool" where
  "dot_then_more (c # d # s) = (c = CHR ''.'' \<and> \<not> is_space d)"
| "dot_then_more s = False"

fun after_at :: "string \<Rightarrow> bool" where
  "after_at [] = False"
| "after_at (c # s) = (\<not> is_space c \<and> (dot_then_more s \<or> after_at s))"

fun validateEmail :: "string \<Rightarrow> bool" where
  "validateEmail (c # d # s) =
     ((\<not> is_space c \<and> d = CHR ''@'' \<and> after_at s) \<or> validateEmail (d # s))"
| "validateEmail s = False"

definition getCurrentUser :: "js_state \<Rightarrow> error + jsval" where
  "getCurrentUser s = JSON_parse (getItem_or s ''activeUser'' ''null'')"

section \<open>script.js: cart storage helpers\<close>

definition getCartKey :: "js_state \<Rightarrow> error + string" where
  "getCartKey s =
     (case getCurrentUser s of
        Inl e \<Rightarrow> Inl e
      | Inr user \<Rightarrow>
          if truthy user
          then (case get_prop user ''email'' of
                  Inl e \<Rightarrow> Inl e
                | Inr email \<Rightarrow> Inr (''fs_cart_'' @ to_string_opt email))
          else Inr ''fs_cart_guest'')"

definition getCart :: "js_state \<Rightarrow> error + jsval" where
  "getCart s =
     (case getCartKey s of
        Inl e \<Rightarrow> Inl e
      | Inr key \<Rightarrow> JSON_parse (getItem_or s key ''[]''))"

section \<open>script.js: cart totals and the dependent views\<close>

text \<open>
  \<^verbatim>\<open>getCart().reduce((sum, item) => sum + item.qty, 0)\<close>. The sum is modelled where every
  quantity is an integer; with any other quantity JavaScript coerces, and the model does not
  follow it.
\<close>

fun sum_qty :: "int \<Rightarrow> jsval list \<Rightarrow> error + int" where
  "sum_qty acc [] = Inr acc"
| "sum_qty acc (item # items) =
     (case get_prop item ''qty'' of
        Inl e \<Rightarrow> Inl e
      | Inr q \<Rightarrow>
          (case q of
             Some (JNum m 0) \<Rightarrow> sum_qty (acc + m) items
           | _ \<Rightarrow> Inl Unmodelled))"

definition cartCount :: "js_state \<Rightarrow> error + int" where
  "cartCount s =
     (case getCart s of
        Inl e \<Rightarrow> Inl e
      | Inr cart \<Rightarrow>
          (case as_array cart of
             Inl e \<Rightarrow> Inl e
           | Inr items \<Rightarrow> sum_qty 0 items))"

text \<open>\<^verbatim>\<open>classList.toggle(name, force)\<close>.\<close>

definition class_toggle :: "string \<Rightarrow> bool \<Rightarrow> string list \<Rightarrow> string list" where
  "class_toggle c force cs =
     (if force then (if c \<in> set cs then cs else cs @ [c]) else removeAll c cs)"

definition updateCartUI :: "js_state \<Rightarrow> (error + unit) \<times> js_state" where
  "updateCartUI s =
     (case cart_count_el s of
        None \<Rightarrow> (Inr (), s)
      | Some el \<Rightarrow>
          (case cartCount s of
             Inl e \<Rightarrow> (Inl e, s)
           | Inr n \<Rightarrow>
               (Inr (),
                s\<lparr>cart_count_el :=
                     Some (el\<lparr>el_text := show_num n 0,
                               el_classes := class_toggle ''d-none'' (n = 0) (el_classes el)\<rparr>)\<rparr>)))"

text \<open>
  \<^verbatim>\<open>showFloatingMessage(message, type)\<close>: without the surface nothing happens; with it the
  class list is reset and the message shown. The timers that hide it again run later.
\<close>

definition showFloatingMessage :: "string \<Rightarrow> string \<Rightarrow> js_state \<Rightarrow> js_state" where
  "showFloatingMessage message type s =
     (case floating_message_el s of
        None \<Rightarrow> s
      | Some el \<Rightarrow>
          s\<lparr>floating_message_el :=
               Some (el\<lparr>el_text := message,
                         el_classes := [''message-'' @ type, ''show'']\<rparr>)\<rparr>)"

text \<open>
  Rendering one line item of the checkout listing raises exactly when
  \<^verbatim>\<open>truncateText(item.description, 100)\<close> does: on \<^verbatim>\<open>null\<close> for the item or the description,
  and on a description without a usable \<^verbatim>\<open>length\<close> and \<^verbatim>\<open>slice\<close>. A missing description takes
  the default \<^verbatim>\<open>''\<close>.
\<close>

fun render_item :: "jsval \<Rightarrow> error + unit" where
  "render_item JNull = Inl TypeError"
| "render_item (JObj kvs) =
     (case map_of kvs ''description'' of
        None \<Rightarrow> Inr ()
      | Some (JStr d) \<Rightarrow> Inr ()
      | Some (JArr ds) \<Rightarrow> if length ds \<le> 100 then Inr () else Inl TypeError
      | Some (JObj ps) \<Rightarrow> Inl Unmodelled
      | Some d \<Rightarrow> Inl TypeError)"
| "render_item v = Inr ()"

fun render_items :: "jsval list \<Rightarrow> error + unit" where
  "render_items [] = Inr ()"
| "render_items (item # items) =
     (case render_item item of Inl e \<Rightarrow> Inl e | Inr u \<Rightarrow> render_items items)"

text \<open>
  \<^verbatim>\<open>renderCheckout()\<close>. The markup is abstracted to what it was built from: the empty-cart
  notice, or the listing of the cart's items. The container is cleared before the items are
  rendered, so it is blank when rendering raises.
\<close>

definition render_cart :: "jsval \<Rightarrow> js_state \<Rightarrow> (error + unit) \<times> js_state" where
  "render_cart cart s =
     (case cart of
        JNull \<Rightarrow> (Inl TypeError, s)
      | JArr items \<Rightarrow>
          if items = [] then (Inr (), s\<lparr>checkout_container := Some EmptyNotice\<rparr>)
          else (case render_items items of
                  Inl e \<Rightarrow> (Inl e, s\<lparr>checkout_container := Some Blank\<rparr>)
                | Inr u \<Rightarrow> (Inr (), s\<lparr>checkout_container := Some (Listing items)\<rparr>))
      | JStr str \<Rightarrow>
          if str = [] then (Inr (), s\<lparr>checkout_container := Some EmptyNotice\<rparr>)
          else (Inl TypeError, s\<lparr>checkout_container := Some Blank\<rparr>)
      | JObj kvs \<Rightarrow>
          if map_of kvs ''length'' = Some (JNum 0 0)
          then (Inr (), s\<lparr>checkout_container := Some EmptyNotice\<rparr>)
          else (Inl TypeError, s\<lparr>checkout_container := Some Blank\<rparr>)
      | _ \<Rightarrow> (Inl TypeError, s\<lparr>checkout_container := Some Blank\<rparr>))"

definition renderCheckout :: "js_state \<Rightarrow> (error + unit) \<times> js_state" where
  "renderCheckout s =
     (case checkout_container s of
        None \<Rightarrow> (Inr (), s)
      | Some view \<Rightarrow>
          (case getCurrentUser s of
             Inl e \<Rightarrow> (Inl e, s)
           | Inr user \<Rightarrow>
               if \<not> truthy user then (Inr (), navigateTo ''login.html'' s)
               else (case getCart s of
                       Inl e \<Rightarrow> (Inl e, s)
                     | Inr cart \<Rightarrow> render_cart cart s)))"

section \<open>script.js: the cart operations\<close>

definition setItem :: "string \<Rightarrow> string \<Rightarrow> js_state \<Rightarrow> js_state" where
  "setItem key v s = s\<lparr>localStorage := (localStorage s)(key \<mapsto> v)\<rparr>"

definition saveCart :: "jsval \<Rightarrow> js_state \<Rightarrow> (error + unit) \<times> js_state" where
  "saveCart cart s =
     (case getCartKey s of
        Inl e \<Rightarrow> (Inl e, s)
      | Inr key \<Rightarrow>
          (case updateCartUI (setItem key (JSON_stringify cart) s) of
             (Inl e, s') \<Rightarrow> (Inl e, s')
           | (Inr u, s') \<Rightarrow> renderCheckout s'))"

text \<open>\<^verbatim>\<open>{ ...product, qty: 1 }\<close>\<close>

definition line_item_of :: "jsval \<Rightarrow> jsval" where
  "line_item_of product = JObj (obj_set (own_props product) ''qty'' (JNum 1 0))"

text \<open>The callback \<^verbatim>\<open>item => item.id === product.id\<close>.\<close>

definition same_id :: "jsval \<Rightarrow> jsval \<Rightarrow> error + bool" where
  "same_id product item =
     (case get_prop item ''id'' of
        Inl e \<Rightarrow> Inl e
      | Inr v \<Rightarrow> (case get_prop product ''id'' of Inl e \<Rightarrow> Inl e | Inr w \<Rightarrow> Inr (strict_eq v w)))"

definition addToCart :: "jsval \<Rightarrow> js_state \<Rightarrow> (error + unit) \<times> js_state" where
  "addToCart product s =
     (case getCurrentUser s of
        Inl e \<Rightarrow> (Inl e, s)
      | Inr user \<Rightarrow>
          if \<not> truthy user then (Inr (), showFloatingMessage ''Please login first!'' ''danger'' s)
          else
            (case getCart s of
               Inl e \<Rightarrow> (Inl e, s)
             | Inr cart \<Rightarrow>
                 (case as_array cart of
                    Inl e \<Rightarrow> (Inl e, s)
                  | Inr items \<Rightarrow>
                      (case js_some (same_id product) items of
                         Inl e \<Rightarrow> (Inl e, s)
                       | Inr dup \<Rightarrow>
                           if dup
                           then (Inr (), showFloatingMessage ''Product already in cart!'' ''danger'' s)
                           else
                             (case saveCart (JArr (items @ [line_item_of product])) s of
                                (Inl e, s') \<Rightarrow> (Inl e, s')
                              | (Inr u, s') \<Rightarrow>
                                  (Inr (),
                                   showFloatingMessage ''Product added to cart!'' ''success'' s'))))))"

text \<open>
  \<^verbatim>\<open>item.qty += change; item.qty <= 0\<close> on the item that \<^verbatim>\<open>find\<close> returned, which is an object
  of the cart array: the assignment is seen through the array. The arithmetic is modelled
  for an integer quantity.
\<close>

definition bump_qty :: "int \<Rightarrow> jsval \<Rightarrow> error + (jsval \<times> bool)" where
  "bump_qty change item =
     (case item of
        JObj kvs \<Rightarrow>
          (case map_of kvs ''qty'' of
             Some (JNum q 0) \<Rightarrow>
               Inr (JObj (obj_set kvs ''qty'' (JNum (q + change) 0)), q + change \<le> 0)
           | _ \<Rightarrow> Inl Unmodelled)
      | _ \<Rightarrow> Inl Unmodelled)"

definition updateQuantity :: "jsval \<Rightarrow> int \<Rightarrow> js_state \<Rightarrow> (error + unit) \<times> js_state" where
  "updateQuantity ident change s =
     (case getCart s of
        Inl e \<Rightarrow> (Inl e, s)
      | Inr cart \<Rightarrow>
          (case as_array cart of
             Inl e \<Rightarrow> (Inl e, s)
           | Inr items \<Rightarrow>
               (case js_find_index (id_is (Some ident)) items of
                  Inl e \<Rightarrow> (Inl e, s)
                | Inr None \<Rightarrow> (Inr (), s)
                | Inr (Some i) \<Rightarrow>
                    (case bump_qty change (items ! i) of
                       Inl e \<Rightarrow> (Inl e, s)
                     | Inr (item', gone) \<Rightarrow>
                         if gone
                         then (case js_filter (id_is_not (Some ident)) (items[i := item']) of
                                 Inl e \<Rightarrow> (Inl e, s)
                               | Inr kept \<Rightarrow> saveCart (JArr kept) s)
                         else saveCart (JArr (items[i := item'])) s))))"

definition removeItem :: "jsval \<Rightarrow> js_state \<Rightarrow> (error + unit) \<times> js_state" where
  "removeItem ident s =
     (case getCart s of
        Inl e \<Rightarrow> (Inl e, s)
      | Inr cart \<Rightarrow>
          (case as_array cart of
             Inl e \<Rightarrow> (Inl e, s)
           | Inr items \<Rightarrow>
               (case js_filter (id_is_not (Some ident)) items of
                  Inl e \<Rightarrow> (Inl e, s)
                | Inr kept \<Rightarrow> saveCart (JArr kept) s)))"

section \<open>The cart invariant\<close>

text \<open>
  The id of a line item as \<^verbatim>\<open>item.id\<close> reads it (\<open>None\<close> is \<^verbatim>\<open>undefined\<close>), the values that
  \<^verbatim>\<open>===\<close> compares by value, and the invariant of the data model: no two line items share an
  id, and every line item has a quantity that is a positive integer.
\<close>

fun item_id :: "jsval \<Rightarrow> jsval option" where
  "item_id (JObj kvs) = map_of kvs ''id''"
| "item_id v = None"

fun primitive :: "jsval \<Rightarrow> bool" where
  "primitive (JArr vs) = False"
| "primitive (JObj kvs) = False"
| "primitive v = True"

fun positive_qty :: "jsval \<Rightarrow> bool" where
  "positive_qty (JObj kvs) = (case map_of kvs ''qty'' of Some (JNum q 0) \<Rightarrow> 0 < q | _ \<Rightarrow> False)"
| "positive_qty v = False"

fun no_shared_id :: "jsval list \<Rightarrow> bool" where
  "no_shared_id [] = True"
| "no_shared_id (x # xs) =
     (list_all (\<lambda>y. \<not> strict_eq (item_id x) (item_id y)) xs \<and> no_shared_id xs)"

definition cart_invariant :: "jsval list \<Rightarrow> bool" where
  "cart_invariant items = (no_shared_id items \<and> list_all positive_qty items)"

section \<open>The JSON codec: printing then parsing gives the value back\<close>

subsection \<open>Numbers\<close>

lemma is_digit_digit_char: "d < 10 \<Longrightarrow> is_digit (digit_char d)"
  by (simp add: is_digit_def digit_char_def)

lemma digit_val_digit_char: "d < 10 \<Longrightarrow> digit_val (digit_char d) = d"
  by (simp add: digit_val_def digit_char_def)

lemma digit_char_eq_zero: "d < 10 \<Longrightarrow> (digit_char d = CHR ''0'') = (d = 0)"
proof -
  assume d: "d < 10"
  have "(digit_char d = CHR ''0'') = ((of_char (digit_char d) :: nat) = of_char (CHR ''0''))"
    by (metis of_char_eq_iff)
  also have "\<dots> = (d = 0)" using d by (simp add: digit_char_def)
  finally show ?thesis .
qed

lemma show_nat_digits: "\<forall>c \<in> set (show_nat n). is_digit c"
proof (induction n rule: show_nat.induct)
  case (1 n)
  show ?case
  proof (cases "n < 10")
    case True
    then show ?thesis by (subst show_nat.simps) (simp add: is_digit_digit_char)
  next
    case False
    then show ?thesis using 1 by (subst show_nat.simps) (auto simp: is_digit_digit_char)
  qed
qed

lemma show_nat_nonempty: "show_nat n \<noteq> []"
  by (subst show_nat.simps) simp

lemma nat_of_digits_snoc: "nat_of_digits (ds @ [c]) = 10 * nat_of_digits ds + digit_val c"
  by (simp add: nat_of_digits_def)

lemma nat_of_digits_show_nat: "nat_of_digits (show_nat n) = n"
proof (induction n rule: show_nat.induct)
  case (1 n)
  show ?case
  proof (cases "n < 10")
    case True
    then show ?thesis
      by (subst show_nat.simps) (simp add: nat_of_digits_def digit_val_digit_char)
  next
    case False
    then have "nat_of_digits (show_nat n) = 10 * nat_of_digits (show_nat (n div 10)) + n mod 10"
      by (subst show_nat.simps) (simp add: nat_of_digits_snoc digit_val_digit_char)
    then show ?thesis using 1 False by simp
  qed
qed

lemma hd_show_nat: "(hd (show_nat n) = CHR ''0'') = (n = 0)"
proof (induction n rule: show_nat.induct)
  case (1 n)
  show ?case
  proof (cases "n < 10")
    case True
    then show ?thesis by (subst show_nat.simps) (simp add: digit_char_eq_zero)
  next
    case False
    then have "hd (show_nat n) = hd (show_nat (n div 10))"
      by (subst show_nat.simps) (simp add: show_nat_nonempty)
    then show ?thesis using 1 False by auto
  qed
qed

lemma nat_of_digits_zeros: "nat_of_digits (replicate j (CHR ''0'') @ ds) = nat_of_digits ds"
proof -
  have "foldl (\<lambda>a c. 10 * a + digit_val c) 0 (replicate j (CHR ''0'')) = 0"
    by (induction j) (simp_all add: digit_val_def)
  then show ?thesis by (simp add: nat_of_digits_def)
qed

lemma digit_char_zero: "digit_char 0 = CHR ''0''"
  using digit_char_eq_zero [of 0] by simp

lemma show_nat_zero: "show_nat 0 = ''0''"
  by (subst show_nat.simps) (simp add: digit_char_zero)

lemma takeWhile_digits:
  "\<forall>c \<in> set ds. is_digit c \<Longrightarrow> t = [] \<or> \<not> is_digit (hd t)
   \<Longrightarrow> takeWhile is_digit (ds @ t) = ds \<and> dropWhile is_digit (ds @ t) = t"
  by (cases t) (auto simp: takeWhile_append2 dropWhile_append2)

definition num_stop :: "string \<Rightarrow> bool" where
  "num_stop r =
     (r = [] \<or> (\<not> is_digit (hd r) \<and> hd r \<noteq> CHR ''.'' \<and> hd r \<noteq> CHR ''e'' \<and> hd r \<noteq> CHR ''E''))"

lemma parse_frac_none: "num_stop r \<Longrightarrow> parse_frac r = Inr ([], r)"
  by (cases r) (auto simp: parse_frac_def num_stop_def)

lemma parse_exp_none: "num_stop r \<Longrightarrow> parse_exp r = Inr (0, r)"
  by (cases r) (auto simp: parse_exp_def num_stop_def)

lemma parse_frac_digits:
  "fd \<noteq> [] \<Longrightarrow> \<forall>c \<in> set fd. is_digit c \<Longrightarrow> num_stop r
   \<Longrightarrow> parse_frac (CHR ''.'' # fd @ r) = Inr (fd, r)"
  using takeWhile_digits [of fd r] by (auto simp: parse_frac_def num_stop_def)

lemma parse_number_tail_int:
  "num_stop r \<Longrightarrow> parse_number_tail neg ip r = Inr (mk_num neg (nat_of_digits ip) 0 0, r)"
  by (simp add: parse_number_tail_def parse_frac_none parse_exp_none)

lemma parse_number_tail_frac:
  "fd \<noteq> [] \<Longrightarrow> \<forall>c \<in> set fd. is_digit c \<Longrightarrow> num_stop r
   \<Longrightarrow> parse_number_tail neg ip (CHR ''.'' # fd @ r)
       = Inr (mk_num neg (nat_of_digits (ip @ fd)) (int (length fd)) 0, r)"
  by (simp add: parse_number_tail_def parse_frac_digits parse_exp_none)

lemma minus_not_digit: "is_digit c \<Longrightarrow> c \<noteq> CHR ''-''"
  by (auto simp: is_digit_def)

lemma parse_number_ip:
  assumes "ip \<noteq> []" and "\<forall>c \<in> set ip. is_digit c" and "ip = ''0'' \<or> hd ip \<noteq> CHR ''0''"
    and "t = [] \<or> \<not> is_digit (hd t)"
  shows "parse_number ((if neg then ''-'' else []) @ ip @ t) = parse_number_tail neg ip t"
proof -
  have hd_digit: "is_digit (hd ip)" using assms(1,2) by (cases ip) auto
  have hd_nm: "hd ip \<noteq> CHR ''-''" using hd_digit by (rule minus_not_digit)
  have tw: "takeWhile is_digit (ip @ t) = ip" "dropWhile is_digit (ip @ t) = t"
    using takeWhile_digits [OF assms(2,4)] by simp_all
  show ?thesis
  proof (cases "ip = ''0''")
    case True
    then show ?thesis by (cases neg) (simp_all add: parse_number_def is_digit_def)
  next
    case False
    then have nz: "hd ip \<noteq> CHR ''0''" using assms(3) by simp
    show ?thesis
      using assms(1) hd_digit hd_nm nz tw
      by (cases neg) (simp_all add: parse_number_def Let_def)
  qed
qed

lemma show_num_int: "show_num m 0 = (if m < 0 then ''-'' else []) @ show_nat (nat \<bar>m\<bar>)"
proof -
  have "show_nat (nat \<bar>m\<bar>) \<noteq> []" by (rule show_nat_nonempty)
  then have "Suc 0 - length (show_nat (nat \<bar>m\<bar>)) = 0"
    by (cases "show_nat (nat \<bar>m\<bar>)") simp_all
  then show ?thesis by (simp add: show_num_def Let_def)
qed

lemma show_nat_canonical: "show_nat a = ''0'' \<or> hd (show_nat a) \<noteq> CHR ''0''"
  using hd_show_nat [of a] show_nat_zero by (cases "a = 0") simp_all

lemma num_stop_no_digit: "num_stop r \<Longrightarrow> r = [] \<or> \<not> is_digit (hd r)"
  by (auto simp: num_stop_def)

lemma mk_num_int: "mk_num (m < 0) (nat \<bar>m\<bar>) 0 0 = (m, 0)"
  by (simp add: mk_num_def)

lemma mk_num_frac: "0 < k \<Longrightarrow> m mod 10 \<noteq> 0 \<Longrightarrow> mk_num (m < 0) (nat \<bar>m\<bar>) (int k) 0 = (m, k)"
proof -
  assume k: "0 < k" and m: "m mod 10 \<noteq> 0"
  obtain j where j: "k = Suc j" using k by (cases k) auto
  have "mk_num (m < 0) (nat \<bar>m\<bar>) (int k) 0 = normalise m k"
    using k by (simp add: mk_num_def Let_def)
  also have "\<dots> = (m, k)" using m by (simp add: j)
  finally show ?thesis .
qed

lemma parse_number_show_int:
  assumes "num_stop r"
  shows "parse_number (show_num m 0 @ r) = Inr ((m, 0), r)"
proof -
  let ?ds = "show_nat (nat \<bar>m\<bar>)"
  have "parse_number ((if m < 0 then ''-'' else []) @ ?ds @ r) = parse_number_tail (m < 0) ?ds r"
    by (rule parse_number_ip)
       (use show_nat_nonempty show_nat_digits show_nat_canonical num_stop_no_digit [OF assms]
        in blast)+
  then show ?thesis
    using assms by (simp add: show_num_int parse_number_tail_int nat_of_digits_show_nat mk_num_int)
qed

lemma parse_number_show_frac:
  assumes k: "0 < k" and m: "m mod 10 \<noteq> 0" and r: "num_stop r"
  shows "parse_number (show_num m k @ r) = Inr ((m, k), r)"
proof -
  define ds where "ds = show_nat (nat \<bar>m\<bar>)"
  define padded where "padded = replicate (Suc k - length ds) (CHR ''0'') @ ds"
  define n where "n = length padded - k"
  define ip where "ip = take n padded"
  define fd where "fd = drop n padded"
  have shape: "show_num m k = (if m < 0 then ''-'' else []) @ ip @ CHR ''.'' # fd"
    using k by (simp add: show_num_def Let_def ds_def padded_def n_def ip_def fd_def)
  have len: "Suc k \<le> length padded" by (simp add: padded_def)
  then have n1: "1 \<le> n" and lfd: "length fd = k" by (simp_all add: n_def fd_def)
  have digs: "\<forall>c \<in> set padded. is_digit c"
    using show_nat_digits [of "nat \<bar>m\<bar>"] by (auto simp: padded_def ds_def is_digit_def)
  have ip_digs: "\<forall>c \<in> set ip. is_digit c"
    using digs by (auto simp: ip_def dest: in_set_takeD)
  have fd_digs: "\<forall>c \<in> set fd. is_digit c"
    using digs by (auto simp: fd_def dest: in_set_dropD)
  have ip_ne: "ip \<noteq> []" using n1 len by (auto simp: ip_def)
  have fd_ne: "fd \<noteq> []" using lfd k by auto
  have whole: "ip @ fd = padded" by (simp add: ip_def fd_def)
  have val: "nat_of_digits (ip @ fd) = nat \<bar>m\<bar>"
    unfolding whole padded_def ds_def by (simp add: nat_of_digits_zeros nat_of_digits_show_nat)
  have nz: "nat \<bar>m\<bar> \<noteq> 0" using m by auto
  have canon: "ip = ''0'' \<or> hd ip \<noteq> CHR ''0''"
  proof (cases "length ds \<le> k")
    case True
    then obtain j where j: "Suc k - length ds = Suc j" by (cases "Suc k - length ds") auto
    have "length padded = Suc k" using True by (simp add: padded_def)
    then have "n = 1" by (simp add: n_def)
    then have "ip = ''0''" by (simp add: ip_def padded_def j)
    then show ?thesis by simp
  next
    case False
    then have "padded = ds" by (simp add: padded_def)
    moreover have "0 < n" using n1 by simp
    ultimately have "hd ip = hd ds" using show_nat_nonempty [of "nat \<bar>m\<bar>"]
      by (simp add: ip_def ds_def hd_take)
    then show ?thesis using hd_show_nat [of "nat \<bar>m\<bar>"] nz by (simp add: ds_def)
  qed
  have dot: "CHR ''.'' # fd @ r = [] \<or> \<not> is_digit (hd (CHR ''.'' # fd @ r))"
    by (simp add: is_digit_def)
  have "parse_number ((if m < 0 then ''-'' else []) @ ip @ CHR ''.'' # fd @ r)
      = parse_number_tail (m < 0) ip (CHR ''.'' # fd @ r)"
    using parse_number_ip [OF ip_ne ip_digs canon dot] .
  also have "\<dots> = Inr (mk_num (m < 0) (nat_of_digits (ip @ fd)) (int (length fd)) 0, r)"
    using parse_number_tail_frac [OF fd_ne fd_digs r] .
  also have "\<dots> = Inr ((m, k), r)"
    using mk_num_frac [OF k m] by (simp add: val lfd)
  finally show ?thesis by (simp add: shape)
qed

lemma parse_number_show_num:
  "num_ok m k \<Longrightarrow> num_stop r \<Longrightarrow> parse_number (show_num m k @ r) = Inr ((m, k), r)"
  using parse_number_show_int [of r m] parse_number_show_frac [of k m r]
  by (cases "k = 0") (auto simp: num_ok_def)

subsection \<open>Strings\<close>

lemma hex_val_hex_char: "d < 16 \<Longrightarrow> hex_val (hex_char d) = Some d"
  by (auto simp: hex_val_def hex_char_def Let_def)

lemma hex4_escape:
  "a < 16 \<Longrightarrow> b < 16
   \<Longrightarrow> hex4 (CHR ''0'' # CHR ''0'' # hex_char a # hex_char b # r) = Some (a * 16 + b)"
  by (simp add: hex4_def hex_val_hex_char) (simp add: hex_val_def)

lemma parse_chars_escape: "parse_chars (escape_char c @ r) = cons_char c (parse_chars r)"
proof -
  consider (short) "c = dquote \<or> c = backslash \<or> c = CHR 0x08 \<or> c = CHR 0x0C \<or> c = CHR 0x0A
      \<or> c = CHR 0x0D \<or> c = CHR 0x09"
    | (ctl) "\<not> (c = dquote \<or> c = backslash \<or> c = CHR 0x08 \<or> c = CHR 0x0C \<or> c = CHR 0x0A
      \<or> c = CHR 0x0D \<or> c = CHR 0x09)" "(of_char c :: nat) < 32"
    | (plain) "c \<noteq> dquote" "c \<noteq> backslash" "\<not> (of_char c :: nat) < 32"
    by (cases "(of_char c :: nat) < 32") auto
  then show ?thesis
  proof cases
    case short
    then show ?thesis by (auto simp: escape_char_def unescape_def)
  next
    case ctl
    have a: "(of_char c :: nat) div 16 < 16" and b: "(of_char c :: nat) mod 16 < 16"
      using ctl(2) by simp_all
    have v: "(of_char c :: nat) div 16 * 16 + of_char c mod 16 = of_char c" by simp
    have lt: "(of_char c :: nat) < 256" using ctl(2) by simp
    have esc: "escape_char c = [backslash, CHR ''u'', CHR ''0'', CHR ''0'',
        hex_char (of_char c div 16), hex_char (of_char c mod 16)]"
      using ctl by (simp add: escape_char_def)
    show ?thesis
      unfolding esc using hex4_escape [OF a b, of r] lt by (simp add: v)
  next
    case plain
    then show ?thesis by (auto simp: escape_char_def)
  qed
qed

lemma parse_chars_quote_body: "parse_chars (quote_body s @ r) = Inr (s, r)"
proof (induction s)
  case Nil
  show ?case by simp
next
  case (Cons c cs)
  have "parse_chars (quote_body (c # cs) @ r) = parse_chars (escape_char c @ (quote_body cs @ r))"
    by simp
  also have "\<dots> = cons_char c (parse_chars (quote_body cs @ r))" by (rule parse_chars_escape)
  also have "\<dots> = Inr (c # cs, r)" by (simp add: Cons.IH cons_char_def)
  finally show ?case .
qed

subsection \<open>Values\<close>

lemma obj_set_fresh: "k \<notin> fst ` set ps \<Longrightarrow> obj_set ps k v = ps @ [(k, v)]"
  by (induction ps) auto

lemma foldl_obj_set_distinct:
  "distinct (map fst (acc @ kvs))
   \<Longrightarrow> foldl (\<lambda>acc kv. obj_set acc (fst kv) (snd kv)) acc kvs = acc @ kvs"
proof (induction kvs arbitrary: acc)
  case Nil
  show ?case by simp
next
  case (Cons kv kvs)
  have fresh: "fst kv \<notin> fst ` set acc" using Cons.prems by auto
  have "distinct (map fst ((acc @ [kv]) @ kvs))" using Cons.prems by simp
  then have "foldl (\<lambda>acc kv. obj_set acc (fst kv) (snd kv)) (acc @ [kv]) kvs = (acc @ [kv]) @ kvs"
    by (rule Cons.IH)
  then show ?case using obj_set_fresh [OF fresh, of "snd kv"] by simp
qed

lemma mk_obj_distinct: "distinct (map fst kvs) \<Longrightarrow> mk_obj kvs = kvs"
  using foldl_obj_set_distinct [of "[]" kvs] by (simp add: mk_obj_def)

definition val_stop :: "string \<Rightarrow> bool" where
  "val_stop r = (r = [] \<or> hd r = CHR '','' \<or> hd r = CHR '']'' \<or> hd r = CHR ''}'')"

lemma val_stop_num_stop: "val_stop r \<Longrightarrow> num_stop r"
  by (auto simp: val_stop_def num_stop_def is_digit_def)

lemma val_stop_simps [simp]:
  "val_stop []" "val_stop (CHR '','' # r)" "val_stop (CHR '']'' # r)" "val_stop (CHR ''}'' # r)"
  by (simp_all add: val_stop_def)

definition vstart :: "string \<Rightarrow> bool" where
  "vstart s = (s \<noteq> [] \<and> \<not> is_ws (hd s) \<and> hd s \<noteq> CHR '']'' \<and> hd s \<noteq> CHR ''}'')"

lemma skip_ws_vstart: "vstart s \<Longrightarrow> skip_ws s = s"
  by (cases s) (simp_all add: vstart_def skip_ws_def)

lemma show_num_shape:
  "\<exists>ip t. show_num m k = (if m < 0 then ''-'' else []) @ ip @ t \<and> ip \<noteq> []
      \<and> (\<forall>c \<in> set ip. is_digit c)"
proof (cases "k = 0")
  case True
  then show ?thesis
    using show_num_int [of m] show_nat_nonempty show_nat_digits by (metis append_Nil2)
next
  case False
  define ds where "ds = show_nat (nat \<bar>m\<bar>)"
  define padded where "padded = replicate (Suc k - length ds) (CHR ''0'') @ ds"
  define n where "n = length padded - k"
  have shape: "show_num m k = (if m < 0 then ''-'' else []) @ take n padded @ CHR ''.'' # drop n padded"
    using False by (simp add: show_num_def Let_def ds_def padded_def n_def)
  have len: "Suc k \<le> length padded" by (simp add: padded_def)
  have digs: "\<forall>c \<in> set padded. is_digit c"
    using show_nat_digits [of "nat \<bar>m\<bar>"] by (auto simp: padded_def ds_def is_digit_def)
  have "take n padded \<noteq> []" using len by (auto simp: n_def)
  moreover have "\<forall>c \<in> set (take n padded). is_digit c" using digs by (auto dest: in_set_takeD)
  ultimately show ?thesis using shape by blast
qed

lemma num_start_chars:
  "c = CHR ''-'' \<or> is_digit c
   \<Longrightarrow> \<not> is_ws c \<and> c \<noteq> CHR ''['' \<and> c \<noteq> CHR ''{'' \<and> c \<noteq> dquote \<and> c \<noteq> CHR '']'' \<and> c \<noteq> CHR ''}''"
  by (auto simp: is_digit_def is_ws_def)

lemma show_num_hd: "\<exists>c t. show_num m k = c # t \<and> (c = CHR ''-'' \<or> is_digit c)"
proof -
  obtain ip t where s: "show_num m k = (if m < 0 then ''-'' else []) @ ip @ t"
    and ne: "ip \<noteq> []" and d: "\<forall>c \<in> set ip. is_digit c"
    using show_num_shape by blast
  obtain c cs where ip: "ip = c # cs" using ne by (cases ip) auto
  show ?thesis using s d by (cases "m < 0") (auto simp: ip)
qed

lemma parse_value_number:
  "c = CHR ''-'' \<or> is_digit c
   \<Longrightarrow> parse_value (c # t)
       = (case parse_number (c # t) of
            Inl e \<Rightarrow> Inl e
          | Inr (mk, r') \<Rightarrow> Inr (JNum (fst mk) (snd mk), r'))"
  using num_start_chars [of c] by (subst parse_value.simps) (simp add: skip_ws_def)

lemma parse_value_show_num:
  assumes "num_ok m k" and "val_stop r"
  shows "parse_value (show_num m k @ r) = Inr (JNum m k, r)"
proof -
  obtain c t where ct: "show_num m k = c # t" and c: "c = CHR ''-'' \<or> is_digit c"
    using show_num_hd by blast
  have "parse_number ((c # t) @ r) = Inr ((m, k), r)"
    using parse_number_show_num [OF assms(1) val_stop_num_stop [OF assms(2)]] by (simp add: ct)
  then show ?thesis using parse_value_number [OF c, of "t @ r"] by (simp add: ct)
qed

lemma parse_value_literals:
  "parse_value (''null'' @ r) = Inr (JNull, r)"
  "parse_value (''true'' @ r) = Inr (JBool True, r)"
  "parse_value (''false'' @ r) = Inr (JBool False, r)"
  by (subst parse_value.simps, simp add: skip_ws_def is_ws_def is_digit_def)+

lemma parse_value_quote: "parse_value (quote s @ r) = Inr (JStr s, r)"
  by (subst parse_value.simps)
     (simp add: quote_def skip_ws_def is_ws_def parse_chars_quote_body)

lemma vstart_stringify: "vstart (JSON_stringify v @ r)"
proof (cases v)
  case (JNum m k)
  obtain c t where ct: "show_num m k = c # t" and c: "c = CHR ''-'' \<or> is_digit c"
    using show_num_hd by blast
  show ?thesis using num_start_chars [OF c] by (simp add: JNum ct vstart_def)
qed (simp_all add: vstart_def is_ws_def quote_def)

lemma vstart_elems: "vs \<noteq> [] \<Longrightarrow> vstart (stringify_elems vs @ r)"
  using vstart_stringify by (cases vs) simp_all

lemma vstart_members: "kvs \<noteq> [] \<Longrightarrow> vstart (stringify_members kvs @ r)"
  by (cases kvs) (simp_all add: vstart_def is_ws_def quote_def)

lemma parse_value_array:
  assumes "vstart t"
  shows "parse_value (CHR ''['' # t)
     = (case parse_elems t of Inl e \<Rightarrow> Inl e | Inr (vs, r') \<Rightarrow> Inr (JArr vs, r'))"
proof -
  have a: "skip_ws (CHR ''['' # t) = CHR ''['' # t" by (simp add: skip_ws_def is_ws_def)
  have b: "skip_ws t = t" by (rule skip_ws_vstart [OF assms])
  have c: "t \<noteq> [] \<and> hd t \<noteq> CHR '']''" using assms by (simp add: vstart_def)
  show ?thesis by (subst parse_value.simps) (simp add: a b c)
qed

lemma parse_value_object:
  assumes "vstart t"
  shows "parse_value (CHR ''{'' # t)
     = (case parse_members t of Inl e \<Rightarrow> Inl e | Inr (kvs, r') \<Rightarrow> Inr (JObj (mk_obj kvs), r'))"
proof -
  have a: "skip_ws (CHR ''{'' # t) = CHR ''{'' # t" by (simp add: skip_ws_def is_ws_def)
  have b: "skip_ws t = t" by (rule skip_ws_vstart [OF assms])
  have c: "t \<noteq> [] \<and> hd t \<noteq> CHR ''}''" using assms by (simp add: vstart_def)
  show ?thesis by (subst parse_value.simps) (simp add: a b c)
qed

lemma parse_value_empty:
  "parse_value (''[]'' @ r) = Inr (JArr [], r)"
  "parse_value (''{}'' @ r) = Inr (JObj [], r)"
  by (subst parse_value.simps, simp add: skip_ws_def is_ws_def)+

lemma skip_ws_sep [simp]:
  "skip_ws (CHR '','' # r) = CHR '','' # r" "skip_ws (CHR '']'' # r) = CHR '']'' # r"
  "skip_ws (CHR ''}'' # r) = CHR ''}'' # r" "skip_ws (CHR '':'' # r) = CHR '':'' # r"
  "skip_ws (dquote # r) = dquote # r"
  by (simp_all add: skip_ws_def is_ws_def)

lemma parse_stringify:
  "wf_json v \<Longrightarrow> val_stop r \<Longrightarrow> parse_value (JSON_stringify v @ r) = Inr (v, r)"
  "vs \<noteq> [] \<Longrightarrow> wf_elems vs \<Longrightarrow> parse_elems (stringify_elems vs @ r) = Inr (vs, r)"
  "kvs \<noteq> [] \<Longrightarrow> wf_members kvs \<Longrightarrow> parse_members (stringify_members kvs @ r) = Inr (kvs, r)"
proof (induction v and vs and kvs arbitrary: r and r and r
    rule: JSON_stringify_stringify_elems_stringify_members.induct)
  case 1
  show ?case using parse_value_literals(1) [of r] by simp
next
  case (2 b)
  show ?case using parse_value_literals(2,3) [of r] by simp
next
  case (3 m k)
  then show ?case by (simp add: parse_value_show_num)
next
  case (4 s)
  show ?case by (simp add: parse_value_quote)
next
  case (5 vs)
  show ?case
  proof (cases "vs = []")
    case True
    then show ?thesis using parse_value_empty(1) [of r] by simp
  next
    case False
    have "parse_elems (stringify_elems vs @ r) = Inr (vs, r)"
      using 5 False by simp
    then show ?thesis
      using False parse_value_array [OF vstart_elems [OF False, of r]] by simp
  qed
next
  case (6 kvs)
  show ?case
  proof (cases "kvs = []")
    case True
    then show ?thesis using parse_value_empty(2) [of r] by simp
  next
    case False
    have "parse_members (stringify_members kvs @ r) = Inr (kvs, r)"
      using 6 False by simp
    moreover have "mk_obj kvs = kvs" using 6(2) by (simp add: mk_obj_distinct)
    ultimately show ?thesis
      using False parse_value_object [OF vstart_members [OF False, of r]] by simp
  qed
next
  case 7
  then show ?case by simp
next
  case (8 v vs)
  have wf: "wf_json v" "wf_elems vs" using 8(4) by simp_all
  show ?case
  proof (cases "vs = []")
    case True
    have "parse_value (JSON_stringify v @ CHR '']'' # r) = Inr (v, CHR '']'' # r)"
      using 8(1) [OF wf(1)] by simp
    then show ?thesis using True by (subst parse_elems.simps) simp
  next
    case False
    have pv: "parse_value (JSON_stringify v @ CHR '','' # stringify_elems vs @ r)
        = Inr (v, CHR '','' # stringify_elems vs @ r)"
      using 8(1) [OF wf(1)] by simp
    have pe: "parse_elems (stringify_elems vs @ r) = Inr (vs, r)"
      using 8(2) [OF False False wf(2)] .
    show ?thesis using False pv pe by (subst parse_elems.simps) simp
  qed
next
  case 9
  then show ?case by simp
next
  case (10 kv kvs)
  have wf: "wf_json (snd kv)" "wf_members kvs" using 10(4) by simp_all
  have key: "\<And>t. parse_chars (quote_body (fst kv) @ t) = Inr (fst kv, t)"
    by (rule parse_chars_quote_body)
  show ?case
  proof (cases "kvs = []")
    case True
    have "parse_value (JSON_stringify (snd kv) @ CHR ''}'' # r) = Inr (snd kv, CHR ''}'' # r)"
      using 10(1) [OF wf(1)] by simp
    then show ?thesis using True key
      by (subst parse_members.simps) (simp add: quote_def)
  next
    case False
    have pv: "parse_value (JSON_stringify (snd kv) @ CHR '','' # stringify_members kvs @ r)
        = Inr (snd kv, CHR '','' # stringify_members kvs @ r)"
      using 10(1) [OF wf(1)] by simp
    have pm: "parse_members (stringify_members kvs @ r) = Inr (kvs, r)"
      using 10(2) [OF False False wf(2)] .
    show ?thesis using False pv pm key
      by (subst parse_members.simps) (simp add: quote_def)
  qed
qed

lemma JSON_parse_stringify: "wf_json v \<Longrightarrow> JSON_parse (JSON_stringify v) = Inr v"
  using parse_stringify(1) [of v "[]"] by (simp add: JSON_parse_def skip_ws_def)

subsection \<open>What the parser returns\<close>

lemma cons_char_Inr:
  "cons_char c res = Inr (str, r) \<Longrightarrow> \<exists>str'. res = Inr (str', r) \<and> str = c # str'"
  by (auto simp: cons_char_def split: sum.splits)

lemma parse_chars_shorter: "parse_chars s = Inr (str, r) \<Longrightarrow> length r < length s"
proof (induction s arbitrary: str r rule: length_induct)
  case (1 s)
  have IH: "\<And>t str r. length t < length s \<Longrightarrow> parse_chars t = Inr (str, r) \<Longrightarrow> length r < length t"
    using "1.IH" by blast
  show ?case
  proof (cases s)
    case Nil
    then show ?thesis using "1.prems" by simp
  next
    case (Cons c t)
    note p = "1.prems" [unfolded Cons]
    show ?thesis
    proof (cases "c = dquote")
      case True
      then show ?thesis using p by (simp add: Cons)
    next
      case nq: False
      show ?thesis
      proof (cases "c = backslash")
        case bs: True
        show ?thesis
        proof (cases t)
          case Nil
          then show ?thesis using p nq bs by simp
        next
          case t: (Cons e t')
          show ?thesis
          proof (cases "e = CHR ''u''")
            case True
            have "\<exists>n::nat. cons_char (char_of n) (parse_chars (drop 4 t')) = Inr (str, r)"
              using p nq bs t True by (cases "hex4 t'") (auto split: if_splits)
            then obtain str' where "parse_chars (drop 4 t') = Inr (str', r)"
              using cons_char_Inr by blast
            then have "length r < length (drop 4 t')"
              by (rule IH [rotated]) (simp add: Cons t)
            then show ?thesis by (simp add: Cons t)
          next
            case False
            have "\<exists>ch. cons_char ch (parse_chars t') = Inr (str, r)"
              using p nq bs t False by (cases "unescape e") auto
            then obtain str' where "parse_chars t' = Inr (str', r)"
              using cons_char_Inr by blast
            then have "length r < length t'"
              by (rule IH [rotated]) (simp add: Cons t)
            then show ?thesis by (simp add: Cons t)
          qed
        qed
      next
        case False
        have "cons_char c (parse_chars t) = Inr (str, r)"
          using p nq False by (simp split: if_splits)
        then obtain str' where "parse_chars t = Inr (str', r)"
          using cons_char_Inr by blast
        then have "length r < length t"
          by (rule IH [rotated]) (simp add: Cons)
        then show ?thesis by (simp add: Cons)
      qed
    qed
  qed
qed

lemma normalise_ok: "normalise m k = (m', k') \<Longrightarrow> num_ok m' k'"
  by (induction m k rule: normalise.induct) (auto simp: num_ok_def split: if_splits)

lemma mk_num_ok: "mk_num neg a k ex = (m', k') \<Longrightarrow> num_ok m' k'"
  unfolding mk_num_def Let_def
  by (auto split: if_splits dest: normalise_ok simp: num_ok_def)

lemma parse_frac_suffix: "parse_frac s = Inr (fd, r) \<Longrightarrow> length r \<le> length s"
  by (cases s) (auto simp: parse_frac_def length_dropWhile_le le_SucI split: if_splits)

lemma parse_exp_suffix: "parse_exp s = Inr (ex, r) \<Longrightarrow> length r \<le> length s"
proof (cases s)
  case Nil
  assume "parse_exp s = Inr (ex, r)"
  then show ?thesis using Nil by (simp add: parse_exp_def)
next
  case (Cons c t)
  assume p: "parse_exp s = Inr (ex, r)"
  have a: "length (dropWhile is_digit t) \<le> length t" by (rule length_dropWhile_le)
  have b: "length (dropWhile is_digit (tl t)) \<le> length t"
    using length_dropWhile_le [of is_digit "tl t"] by simp
  show ?thesis
    using p a b unfolding Cons parse_exp_def Let_def
    by (auto split: if_splits)
qed

lemma parse_number_tail_suffix:
  "parse_number_tail neg ip s = Inr ((m, k), r) \<Longrightarrow> num_ok m k \<and> length r \<le> length s"
  by (auto simp: parse_number_tail_def mk_num_ok split: sum.splits
      dest!: parse_frac_suffix parse_exp_suffix)

lemma parse_number_shorter:
  assumes "parse_number s = Inr ((m, k), r)"
  shows "num_ok m k \<and> length r < length s"
proof -
  define s1 where "s1 = (if s \<noteq> [] \<and> hd s = CHR ''-'' then tl s else s)"
  have s1_le: "length s1 \<le> length s" by (simp add: s1_def)
  have ne: "s1 \<noteq> []" and dig: "is_digit (hd s1)"
    using assms by (auto simp: parse_number_def Let_def s1_def split: if_splits)
  obtain c t where ct: "s1 = c # t" using ne by (cases s1) auto
  have dw: "length (dropWhile is_digit s1) \<le> length t"
    using dig by (simp add: ct length_dropWhile_le)
  have "(\<exists>ip. parse_number_tail (s \<noteq> [] \<and> hd s = CHR ''-'') ip t = Inr ((m, k), r))
      \<or> (\<exists>ip. parse_number_tail (s \<noteq> [] \<and> hd s = CHR ''-'') ip (dropWhile is_digit s1)
            = Inr ((m, k), r))"
    using assms ne dig unfolding parse_number_def Let_def s1_def [symmetric]
    by (auto simp: ct split: if_splits)
  then have "num_ok m k \<and> length r \<le> length t"
    using dw by (auto dest!: parse_number_tail_suffix)
  then show ?thesis using s1_le by (simp add: ct)
qed

lemma keys_obj_set: "fst ` set (obj_set ps k v) = insert k (fst ` set ps)"
  by (induction ps) auto

lemma distinct_obj_set: "distinct (map fst ps) \<Longrightarrow> distinct (map fst (obj_set ps k v))"
proof (induction ps)
  case Nil
  show ?case by simp
next
  case (Cons p ps)
  have "fst p \<noteq> k \<Longrightarrow> fst p \<notin> fst ` set (obj_set ps k v)"
    using Cons.prems by (simp add: keys_obj_set)
  then show ?case using Cons by auto
qed

lemma wf_members_obj_set: "wf_members ps \<Longrightarrow> wf_json v \<Longrightarrow> wf_members (obj_set ps k v)"
  by (induction ps) auto

lemma foldl_obj_set_wf:
  "distinct (map fst acc) \<Longrightarrow> wf_members acc \<Longrightarrow> wf_members kvs
   \<Longrightarrow> distinct (map fst (foldl (\<lambda>acc kv. obj_set acc (fst kv) (snd kv)) acc kvs))
     \<and> wf_members (foldl (\<lambda>acc kv. obj_set acc (fst kv) (snd kv)) acc kvs)"
proof (induction kvs arbitrary: acc)
  case Nil
  then show ?case by simp
next
  case (Cons kv kvs)
  have "distinct (map fst (obj_set acc (fst kv) (snd kv)))"
    using Cons.prems(1) by (rule distinct_obj_set)
  moreover have "wf_members (obj_set acc (fst kv) (snd kv))"
    using Cons.prems(2,3) by (simp add: wf_members_obj_set)
  moreover have "wf_members kvs" using Cons.prems(3) by simp
  ultimately show ?case using Cons.IH by simp
qed

lemma wf_mk_obj: "wf_members kvs \<Longrightarrow> wf_json (JObj (mk_obj kvs))"
  using foldl_obj_set_wf [of "[]" kvs] by (simp add: mk_obj_def)

lemma length_tl_skip_ws: "length (tl (skip_ws r)) \<le> length r"
  using length_skip_ws [of r] by simp

text \<open>
  What the parser returns is well-formed, and it has consumed at least one character: the
  length tests in \<open>parse_elems\<close> and \<open>parse_members\<close> never reject an input.
\<close>

lemma parse_sound:
  "parse_value s = Inr (v, r) \<Longrightarrow> wf_json v \<and> length r < length s"
  "parse_elems s = Inr (vs, r) \<Longrightarrow> wf_elems vs \<and> length r < length s"
  "parse_members s = Inr (kvs, r) \<Longrightarrow> wf_members kvs \<and> length r < length s"
proof (induction s and s and s arbitrary: v r and vs r and kvs r
    rule: parse_value_parse_elems_parse_members.induct)
  case (1 s)
  obtain c r0 where sk: "skip_ws s = c # r0"
    using "1.prems" by (subst (asm) parse_value.simps) (auto split: list.splits)
  have len0: "length r0 < length s" using sk by (rule skip_ws_Cons_shorter)
  note p = "1.prems" [unfolded parse_value.simps [of s] sk, simplified]
  show ?case
  proof (cases "c = CHR ''[''")
    case arr: True
    show ?thesis
    proof (cases "skip_ws r0 \<noteq> [] \<and> hd (skip_ws r0) = CHR '']''")
      case True
      then show ?thesis using p arr len0 length_tl_skip_ws [of r0] by auto
    next
      case False
      then obtain vs where pe: "parse_elems r0 = Inr (vs, r)" and v: "v = JArr vs"
        using p arr by (auto split: sum.splits)
      show ?thesis using "1.IH"(1) [OF sk arr False pe] len0 v by simp
    qed
  next
    case narr: False
    show ?thesis
    proof (cases "c = CHR ''{''")
      case obj: True
      show ?thesis
      proof (cases "skip_ws r0 \<noteq> [] \<and> hd (skip_ws r0) = CHR ''}''")
        case True
        then show ?thesis using p narr obj len0 length_tl_skip_ws [of r0] by auto
      next
        case False
        then obtain kvs where pm: "parse_members r0 = Inr (kvs, r)" and v: "v = JObj (mk_obj kvs)"
          using p narr obj by (auto split: sum.splits)
        show ?thesis using "1.IH"(2) [OF sk narr obj False pm] len0 v wf_mk_obj by simp
      qed
    next
      case nobj: False
      show ?thesis
      proof (cases "c = dquote")
        case True
        then obtain str where "parse_chars r0 = Inr (str, r)" and "v = JStr str"
          using p narr nobj by (auto split: sum.splits)
        then show ?thesis using parse_chars_shorter [of r0 str r] len0 by simp
      next
        case nstr: False
        show ?thesis
        proof (cases "c = CHR ''-'' \<or> is_digit c")
          case True
          then obtain m k where pn: "parse_number (c # r0) = Inr ((m, k), r)" and v: "v = JNum m k"
            using p narr nobj nstr by (auto split: sum.splits)
          show ?thesis using parse_number_shorter [OF pn] len0 v by simp
        next
          case False
          then have "(v = JNull \<or> v = JBool True \<or> v = JBool False) \<and> length r \<le> length r0"
            using p narr nobj nstr by (auto split: if_splits)
          then show ?thesis using len0 by auto
        qed
      qed
    qed
  qed
next
  case (2 s)
  obtain v0 r0 where pv: "parse_value s = Inr (v0, r0)"
    using "2.prems" by (subst (asm) parse_elems.simps) (auto split: sum.splits)
  have v0: "wf_json v0" and l0: "length r0 < length s" using "2.IH"(1) [OF pv] by simp_all
  obtain c r1 where sk: "skip_ws r0 = c # r1"
    using "2.prems" pv by (subst (asm) parse_elems.simps) (auto split: list.splits)
  have l1: "length r1 < length r0" using sk by (rule skip_ws_Cons_shorter)
  note p = "2.prems" [unfolded parse_elems.simps [of s] pv, simplified, unfolded sk, simplified]
  show ?case
  proof (cases "c = CHR '']''")
    case True
    then show ?thesis using p v0 l0 l1 by auto
  next
    case False
    then have c: "c = CHR '','' \<and> length r1 < length s" using p by (auto split: if_splits)
    then obtain vs' where pe: "parse_elems r1 = Inr (vs', r)" and vs: "vs = v0 # vs'"
      using p False by (auto split: sum.splits)
    show ?thesis using "2.IH"(2) [OF pv refl sk False c pe] v0 l0 l1 vs by simp
  qed
next
  case (3 s)
  note prem = "3.prems" [unfolded parse_members.simps [of s]]
  obtain c r0 where sk: "skip_ws s = c # r0"
    using prem by (auto split: list.splits)
  have q: "\<not> c \<noteq> dquote" using prem sk by (auto split: if_splits)
  obtain k r1 where pc: "parse_chars r0 = Inr (k, r1)"
    using prem sk q by (auto split: sum.splits)
  obtain c1 r2 where sk1: "skip_ws r1 = c1 # r2"
    using prem sk q pc by (auto split: list.splits)
  have c1: "c1 = CHR '':'' \<and> length r2 < length s"
    using prem sk q pc sk1 by (auto split: if_splits)
  obtain v0 r3 where pv: "parse_value r2 = Inr (v0, r3)"
    using prem sk q pc sk1 c1 by (auto split: sum.splits)
  have v0: "wf_json v0" and l3: "length r3 < length r2"
    using "3.IH"(1) [OF sk q pc refl sk1 c1 pv] by simp_all
  obtain c3 r4 where sk3: "skip_ws r3 = c3 # r4"
    using prem sk q pc sk1 c1 pv by (auto split: list.splits)
  have l4: "length r4 < length r3" using sk3 by (rule skip_ws_Cons_shorter)
  have p: "(if c3 = CHR ''}'' then Inr ([(k, v0)], r4)
            else if c3 = CHR '','' \<and> length r4 < length s
              then (case parse_members r4 of
                      Inl e \<Rightarrow> Inl e
                    | Inr (kvs, r5) \<Rightarrow> Inr ((k, v0) # kvs, r5))
              else Inl SyntaxError) = Inr (kvs, r)"
    using prem sk q pc sk1 c1 pv sk3 by simp
  show ?case
  proof (cases "c3 = CHR ''}''")
    case True
    then show ?thesis using p q c1 v0 l3 l4 by auto
  next
    case False
    then have c3: "c3 = CHR '','' \<and> length r4 < length s"
      using p q c1 by (auto split: if_splits)
    then obtain kvs' where pm: "parse_members r4 = Inr (kvs', r)" and kvs: "kvs = (k, v0) # kvs'"
      using p q c1 False by (auto split: sum.splits)
    show ?thesis
      using "3.IH"(2) [OF sk q pc refl sk1 c1 pv refl sk3 False c3 pm] v0 c1 c3 kvs by simp
  qed
qed

lemma JSON_parse_wf: "JSON_parse s = Inr v \<Longrightarrow> wf_json v"
  using parse_sound(1) by (auto simp: JSON_parse_def split: sum.splits if_splits)

section \<open>Sample states\<close>

text \<open>A page with an empty \<^verbatim>\<open>localStorage\<close> and none of the three surfaces mounted.\<close>

definition fresh_page :: js_state where
  "fresh_page =
     \<lparr>localStorage = Map.empty, cart_count_el = None, floating_message_el = None,
      checkout_container = None, mockHref = None, location_href = ''store.html''\<rparr>"

text \<open>What the login form does on success: \<^verbatim>\<open>localStorage.setItem('activeUser', JSON.stringify(user))\<close>.\<close>

definition logged_in :: "jsval \<Rightarrow> js_state \<Rightarrow> js_state" where
  "logged_in user s = setItem ''activeUser'' (JSON_stringify user) s"

definition ada :: jsval where
  "ada = JObj [(''name'', JStr ''Ada''), (''email'', JStr ''ada@example.com''),
               (''password'', JStr ''secret1''), (''address'', JStr ''1 Main St'')]"

text \<open>The store page after login, with the cart badge and the floating message mounted.\<close>

definition store_page :: js_state where
  "store_page =
     \<lparr>localStorage = [''activeUser'' \<mapsto> JSON_stringify ada],
      cart_count_el = Some \<lparr>el_text = '''', el_classes = [''d-none'']\<rparr>,
      floating_message_el = Some \<lparr>el_text = '''', el_classes = [''d-none'']\<rparr>,
      checkout_container = None, mockHref = None, location_href = ''store.html''\<rparr>"

definition backpack :: jsval where
  "backpack = JObj [(''id'', JNum 1 0), (''title'', JStr ''Backpack''), (''price'', JNum 10995 2),
                    (''description'', JStr ''Fits 15 inch laptops''), (''image'', JStr ''b.jpg'')]"

text \<open>A stored cart of two line items for the logged-in principal.\<close>

definition two_items :: "jsval list" where
  "two_items =
     [JObj [(''id'', JNum 1 0), (''title'', JStr ''Backpack''), (''qty'', JNum 2 0)],
      JObj [(''id'', JNum 2 0), (''title'', JStr ''Shirt''), (''qty'', JNum 3 0)]]"

definition cart_page :: js_state where
  "cart_page = setItem ''fs_cart_ada@example.com'' (JSON_stringify (JArr two_items)) store_page"

section \<open>The namespace key\<close>

lemma getCartKey_guest:
  "getCurrentUser s = Inr user \<Longrightarrow> \<not> truthy user \<Longrightarrow> getCartKey s = Inr ''fs_cart_guest''"
  by (simp add: getCartKey_def)

lemma getCartKey_email:
  "getCurrentUser s = Inr (JObj kvs) \<Longrightarrow> map_of kvs ''email'' = Some (JStr email)
   \<Longrightarrow> getCartKey s = Inr (''fs_cart_'' @ email)"
  by (simp add: getCartKey_def to_string_opt_def)

lemma getCartKey_cong:
  "localStorage s ''activeUser'' = localStorage s' ''activeUser'' \<Longrightarrow> getCartKey s = getCartKey s'"
  by (simp add: getCartKey_def getCurrentUser_def getItem_or_def)

text \<open>
  C1, as the spec states it, fails: with no principal the key is \<^verbatim>\<open>fs_cart_guest\<close>, not
  \<^verbatim>\<open>cart_guest\<close>.
\<close>

theorem getCartKey_not_cart_guest:
  "getCurrentUser fresh_page = Inr JNull \<and> getCartKey fresh_page \<noteq> Inr ''cart_guest''"
  unfolding fresh_page_def by code_simp

text \<open>
  C1, amended: in every state, \<open>getCartKey\<close> returns \<^verbatim>\<open>fs_cart_guest\<close> when no principal is
  active (the stored \<^verbatim>\<open>activeUser\<close> is missing or falsy), and \<^verbatim>\<open>fs_cart_\<close> followed by the
  principal's email when a principal is active.
\<close>

theorem getCartKey_value:
  "(getCurrentUser s = Inr user \<and> \<not> truthy user \<longrightarrow> getCartKey s = Inr ''fs_cart_guest'') \<and>
   (getCurrentUser s = Inr (JObj kvs) \<and> map_of kvs ''email'' = Some (JStr email)
      \<longrightarrow> getCartKey s = Inr (''fs_cart_'' @ email))"
  using getCartKey_guest getCartKey_email by blast

theorem getCartKey_value_witness:
  "getCurrentUser fresh_page = Inr JNull \<and> \<not> truthy JNull
   \<and> getCartKey fresh_page = Inr ''fs_cart_guest''
   \<and> getCurrentUser (logged_in ada fresh_page) = Inr ada
   \<and> getCartKey (logged_in ada fresh_page) = Inr ''fs_cart_ada@example.com''"
proof -
  have guest: "getCurrentUser fresh_page = Inr JNull"
    unfolding fresh_page_def by code_simp
  have user: "getCurrentUser (logged_in ada fresh_page)
      = Inr (JObj [(''name'', JStr ''Ada''), (''email'', JStr ''ada@example.com''),
                   (''password'', JStr ''secret1''), (''address'', JStr ''1 Main St'')])"
    unfolding fresh_page_def ada_def logged_in_def by code_simp
  have "getCartKey fresh_page = Inr ''fs_cart_guest''"
    using getCartKey_value [of fresh_page JNull] guest by simp
  moreover have "getCartKey (logged_in ada fresh_page) = Inr (''fs_cart_'' @ ''ada@example.com'')"
    using getCartKey_value [of "logged_in ada fresh_page" JNull
        "[(''name'', JStr ''Ada''), (''email'', JStr ''ada@example.com''),
          (''password'', JStr ''secret1''), (''address'', JStr ''1 Main St'')]" "''ada@example.com''"] user
    by simp
  ultimately show ?thesis using guest user by (simp add: ada_def)
qed

text \<open>
  C9, as the spec states it, fails: a principal whose email is the non-empty string
  \<^verbatim>\<open>guest\<close> gets the guest key.
\<close>

theorem guest_email_shares_guest_key:
  "getCurrentUser (logged_in (JObj [(''name'', JStr ''G''), (''email'', JStr ''guest'')]) fresh_page)
     = Inr (JObj [(''name'', JStr ''G''), (''email'', JStr ''guest'')])
   \<and> getCartKey (logged_in (JObj [(''name'', JStr ''G''), (''email'', JStr ''guest'')]) fresh_page)
     = getCartKey fresh_page"
  unfolding fresh_page_def logged_in_def by code_simp

lemma validateEmail_has_at: "validateEmail e \<Longrightarrow> CHR ''@'' \<in> set e"
  by (induction e rule: validateEmail.induct) auto

lemma validateEmail_not_guest: "validateEmail e \<Longrightarrow> e \<noteq> ''guest''"
  using validateEmail_has_at [of e] by auto

text \<open>
  C9, amended: the key of a principal with email \<open>email\<close> equals the guest key exactly when
  \<open>email\<close> is \<^verbatim>\<open>guest\<close>, so for every other email the two keys differ, in particular for every
  email that \<open>validateEmail\<close> accepts; and the key is a function of the stored principal alone:
  states with the same \<^verbatim>\<open>activeUser\<close> entry have the same key.
\<close>

theorem getCartKey_separates:
  "(getCurrentUser s = Inr (JObj kvs) \<and> map_of kvs ''email'' = Some (JStr email)
      \<and> getCurrentUser g = Inr none \<and> \<not> truthy none
      \<longrightarrow> (getCartKey s = getCartKey g) = (email = ''guest'')
        \<and> (validateEmail email \<longrightarrow> getCartKey s \<noteq> getCartKey g)) \<and>
   (localStorage s ''activeUser'' = localStorage s' ''activeUser'' \<longrightarrow> getCartKey s = getCartKey s')"
proof (intro conjI impI)
  assume a: "getCurrentUser s = Inr (JObj kvs) \<and> map_of kvs ''email'' = Some (JStr email)
      \<and> getCurrentUser g = Inr none \<and> \<not> truthy none"
  then have "getCartKey s = Inr (''fs_cart_'' @ email)" and "getCartKey g = Inr ''fs_cart_guest''"
    using getCartKey_email getCartKey_guest by blast+
  then show eq: "(getCartKey s = getCartKey g) = (email = ''guest'')" by simp
  assume "validateEmail email"
  then show "getCartKey s \<noteq> getCartKey g" using eq validateEmail_not_guest by blast
next
  assume "localStorage s ''activeUser'' = localStorage s' ''activeUser''"
  then show "getCartKey s = getCartKey s'" by (rule getCartKey_cong)
qed

theorem getCartKey_separates_witness:
  "getCurrentUser (logged_in ada fresh_page) = Inr ada
   \<and> getCurrentUser fresh_page = Inr JNull
   \<and> validateEmail ''ada@example.com''
   \<and> getCartKey (logged_in ada fresh_page) \<noteq> getCartKey fresh_page
   \<and> getCartKey (logged_in ada fresh_page)
       = getCartKey (logged_in ada (fresh_page\<lparr>mockHref := Some ''''\<rparr>))"
proof -
  let ?kvs = "[(''name'', JStr ''Ada''), (''email'', JStr ''ada@example.com''),
               (''password'', JStr ''secret1''), (''address'', JStr ''1 Main St'')]"
  have guest: "getCurrentUser fresh_page = Inr JNull"
    unfolding fresh_page_def by code_simp
  have user: "getCurrentUser (logged_in ada fresh_page) = Inr (JObj ?kvs)"
    unfolding fresh_page_def ada_def logged_in_def by code_simp
  have email: "map_of ?kvs ''email'' = Some (JStr ''ada@example.com'')" by simp
  have valid: "validateEmail ''ada@example.com''" by (simp add: is_space_def)
  have same: "localStorage (logged_in ada fresh_page) ''activeUser''
      = localStorage (logged_in ada (fresh_page\<lparr>mockHref := Some ''''\<rparr>)) ''activeUser''"
    by (simp add: logged_in_def setItem_def)
  note t = getCartKey_separates [of "logged_in ada fresh_page" ?kvs "''ada@example.com''"
      fresh_page JNull "logged_in ada (fresh_page\<lparr>mockHref := Some ''''\<rparr>)"]
  have "getCartKey (logged_in ada fresh_page) \<noteq> getCartKey fresh_page"
    using t user email guest valid by simp
  moreover have "getCartKey (logged_in ada fresh_page)
      = getCartKey (logged_in ada (fresh_page\<lparr>mockHref := Some ''''\<rparr>))"
    using t same by blast
  ultimately show ?thesis using guest user valid by (simp add: ada_def)
qed

section \<open>Reading the cart\<close>

lemma JSON_parse_empty_array: "JSON_parse ''[]'' = Inr (JArr [])"
  by code_simp

lemma getCart_absent:
  "getCartKey s = Inr key \<Longrightarrow> localStorage s key = None \<or> localStorage s key = Some []
   \<Longrightarrow> getCart s = Inr (JArr [])"
  by (auto simp: getCart_def getItem_or_def JSON_parse_empty_array)

lemma getCart_present:
  "getCartKey s = Inr key \<Longrightarrow> localStorage s key = Some v \<Longrightarrow> v \<noteq> []
   \<Longrightarrow> getCart s = JSON_parse v"
  by (simp add: getCart_def getItem_or_def)

lemma cartCount_empty: "getCart s = Inr (JArr []) \<Longrightarrow> cartCount s = Inr 0"
  by (simp add: cartCount_def)

text \<open>
  C2, as the spec states it, fails: a stored entry that is not JSON makes \<open>getCart\<close> raise
  the \<^verbatim>\<open>SyntaxError\<close> of \<^verbatim>\<open>JSON.parse\<close>; nothing catches it.
\<close>

theorem getCart_raises_on_malformed_entry:
  "getCartKey (setItem ''fs_cart_guest'' ''oops'' fresh_page) = Inr ''fs_cart_guest''
   \<and> getCart (setItem ''fs_cart_guest'' ''oops'' fresh_page) = Inl SyntaxError"
  unfolding fresh_page_def setItem_def by code_simp

text \<open>
  C2, amended: where the namespace key resolves, \<open>getCart\<close> returns the empty sequence when
  no entry (or the empty string) is stored at the key; for any other stored string it
  returns whatever \<^verbatim>\<open>JSON.parse\<close> makes of it, and raises when \<^verbatim>\<open>JSON.parse\<close> raises.
\<close>

theorem getCart_value:
  "getCartKey s = Inr key \<longrightarrow>
     (localStorage s key = None \<or> localStorage s key = Some [] \<longrightarrow> getCart s = Inr (JArr [])) \<and>
     (\<forall>v. localStorage s key = Some v \<and> v \<noteq> [] \<longrightarrow> getCart s = JSON_parse v)"
  using getCart_absent getCart_present by blast

theorem getCart_value_witness:
  "getCartKey fresh_page = Inr ''fs_cart_guest''
   \<and> localStorage fresh_page ''fs_cart_guest'' = None
   \<and> getCart fresh_page = Inr (JArr [])
   \<and> localStorage (setItem ''fs_cart_guest'' ''[7]'' fresh_page) ''fs_cart_guest'' = Some ''[7]''
   \<and> getCart (setItem ''fs_cart_guest'' ''[7]'' fresh_page) = Inr (JArr [JNum 7 0])"
proof -
  have k0: "getCartKey fresh_page = Inr ''fs_cart_guest''"
    unfolding fresh_page_def by code_simp
  have k1: "getCartKey (setItem ''fs_cart_guest'' ''[7]'' fresh_page) = Inr ''fs_cart_guest''"
    unfolding fresh_page_def setItem_def by code_simp
  have e0: "localStorage fresh_page ''fs_cart_guest'' = None"
    by (simp add: fresh_page_def)
  have e1: "localStorage (setItem ''fs_cart_guest'' ''[7]'' fresh_page) ''fs_cart_guest'' = Some ''[7]''"
    by (simp add: setItem_def)
  have p: "JSON_parse ''[7]'' = Inr (JArr [JNum 7 0])"
    by code_simp
  have "getCart fresh_page = Inr (JArr [])"
    using getCart_value [of fresh_page "''fs_cart_guest''"] k0 e0 by blast
  moreover have "getCart (setItem ''fs_cart_guest'' ''[7]'' fresh_page) = JSON_parse ''[7]''"
    using getCart_value [of "setItem ''fs_cart_guest'' ''[7]'' fresh_page" "''fs_cart_guest''"] k1 e1
    by blast
  ultimately show ?thesis using k0 e0 e1 p by simp
qed

text \<open>
  C10: an entry that is the empty string is falsy, so \<open>getCart\<close> parses the fallback
  \<^verbatim>\<open>'[]'\<close> instead; the cart is the empty sequence and \<open>cartCount\<close> is \<open>0\<close>.
\<close>

theorem empty_string_entry_is_empty_cart:
  "getCartKey s = Inr key \<Longrightarrow> localStorage s key = Some ''''
   \<Longrightarrow> getCart s = Inr (JArr []) \<and> cartCount s = Inr 0"
  using getCart_absent [of s key] cartCount_empty [of s] by simp

theorem empty_string_entry_is_empty_cart_witness:
  "getCartKey (setItem ''fs_cart_guest'' '''' fresh_page) = Inr ''fs_cart_guest''
   \<and> localStorage (setItem ''fs_cart_guest'' '''' fresh_page) ''fs_cart_guest'' = Some ''''
   \<and> getCart (setItem ''fs_cart_guest'' '''' fresh_page) = Inr (JArr [])
   \<and> cartCount (setItem ''fs_cart_guest'' '''' fresh_page) = Inr 0"
proof -
  have k: "getCartKey (setItem ''fs_cart_guest'' '''' fresh_page) = Inr ''fs_cart_guest''"
    unfolding fresh_page_def setItem_def by code_simp
  have e: "localStorage (setItem ''fs_cart_guest'' '''' fresh_page) ''fs_cart_guest'' = Some ''''"
    by (simp add: setItem_def)
  show ?thesis
    using empty_string_entry_is_empty_cart [OF k e] k e by simp
qed

section \<open>Writing the cart\<close>

lemma localStorage_showFloatingMessage [simp]:
  "localStorage (showFloatingMessage m t s) = localStorage s"
  by (simp add: showFloatingMessage_def split: option.splits)

lemma localStorage_navigateTo [simp]: "localStorage (navigateTo url s) = localStorage s"
  by (simp add: navigateTo_def split: option.splits)

lemma localStorage_updateCartUI [simp]: "localStorage (snd (updateCartUI s)) = localStorage s"
  by (simp add: updateCartUI_def split: option.splits sum.splits)

lemma localStorage_render_cart [simp]: "localStorage (snd (render_cart cart s)) = localStorage s"
  by (simp add: render_cart_def split: jsval.splits sum.splits)

lemma localStorage_renderCheckout [simp]: "localStorage (snd (renderCheckout s)) = localStorage s"
  by (simp add: renderCheckout_def split: option.splits sum.splits)

lemma getCurrentUser_cong:
  "localStorage s ''activeUser'' = localStorage s' ''activeUser'' \<Longrightarrow> getCurrentUser s = getCurrentUser s'"
  by (simp add: getCurrentUser_def getItem_or_def)

lemma getCart_cong: "localStorage s = localStorage s' \<Longrightarrow> getCart s = getCart s'"
  using getCartKey_cong [of s s'] by (simp add: getCart_def getItem_or_def split: sum.splits)

lemma cartCount_cong: "localStorage s = localStorage s' \<Longrightarrow> cartCount s = cartCount s'"
  using getCart_cong [of s s'] by (simp add: cartCount_def)

lemma getCartKey_prefix: "getCartKey s = Inr key \<Longrightarrow> \<exists>rest. key = ''fs_cart_'' @ rest"
  by (auto simp: getCartKey_def split: sum.splits if_splits)

lemma getCartKey_not_activeUser: "getCartKey s = Inr key \<Longrightarrow> key \<noteq> ''activeUser''"
  by (auto dest!: getCartKey_prefix)

lemma getCartKey_setItem:
  "key \<noteq> ''activeUser'' \<Longrightarrow> getCartKey (setItem key v s) = getCartKey s"
  by (rule getCartKey_cong) (simp add: setItem_def)

lemma getCurrentUser_setItem:
  "key \<noteq> ''activeUser'' \<Longrightarrow> getCurrentUser (setItem key v s) = getCurrentUser s"
  by (rule getCurrentUser_cong) (simp add: setItem_def)

lemma quote_nonempty: "quote s \<noteq> []"
  by (simp add: quote_def)

lemma JSON_stringify_nonempty: "JSON_stringify v \<noteq> []"
  using vstart_stringify [of v "[]"] by (simp add: vstart_def)

lemma getCart_stored:
  assumes "getCartKey s = Inr key" and "wf_json c"
    and "localStorage s key = Some (JSON_stringify c)"
  shows "getCart s = Inr c"
  using assms JSON_stringify_nonempty [of c]
  by (simp add: getCart_def getItem_or_def JSON_parse_stringify)

lemma saveCart_storage:
  "getCartKey s = Inr key
   \<Longrightarrow> localStorage (snd (saveCart c s)) = (localStorage s)(key \<mapsto> JSON_stringify c)"
proof -
  assume k: "getCartKey s = Inr key"
  have a: "localStorage (snd (updateCartUI (setItem key (JSON_stringify c) s)))
      = (localStorage s)(key \<mapsto> JSON_stringify c)"
    by (simp add: setItem_def)
  show ?thesis
  proof (cases "updateCartUI (setItem key (JSON_stringify c) s)")
    case (Pair res s1)
    then have s1: "localStorage s1 = (localStorage s)(key \<mapsto> JSON_stringify c)" using a by simp
    show ?thesis
    proof (cases res)
      case (Inl e)
      then show ?thesis using k Pair s1 by (simp add: saveCart_def)
    next
      case (Inr u)
      have "localStorage (snd (renderCheckout s1)) = localStorage s1" by simp
      then show ?thesis using k Pair Inr s1 by (simp add: saveCart_def)
    qed
  qed
qed

lemma saveCart_failed_key: "getCartKey s = Inl e \<Longrightarrow> saveCart c s = (Inl e, s)"
  by (simp add: saveCart_def)

lemma getCartKey_saveCart: "getCartKey (snd (saveCart c s)) = getCartKey s"
proof (cases "getCartKey s")
  case (Inl e)
  then show ?thesis by (simp add: saveCart_failed_key)
next
  case (Inr key)
  have "localStorage (snd (saveCart c s)) ''activeUser'' = localStorage s ''activeUser''"
    using saveCart_storage [OF Inr, of c] getCartKey_not_activeUser [OF Inr] by simp
  then show ?thesis by (rule getCartKey_cong)
qed

lemma getCurrentUser_saveCart: "getCurrentUser (snd (saveCart c s)) = getCurrentUser s"
proof (cases "getCartKey s")
  case (Inl e)
  then show ?thesis by (simp add: saveCart_failed_key)
next
  case (Inr key)
  have "localStorage (snd (saveCart c s)) ''activeUser'' = localStorage s ''activeUser''"
    using saveCart_storage [OF Inr, of c] getCartKey_not_activeUser [OF Inr] by simp
  then show ?thesis by (rule getCurrentUser_cong)
qed

lemma getCart_saveCart:
  assumes "getCartKey s = Inr key" and "wf_json c"
  shows "getCart (snd (saveCart c s)) = Inr c"
proof (rule getCart_stored [OF _ assms(2)])
  show "getCartKey (snd (saveCart c s)) = Inr key"
    using getCartKey_saveCart [of c s] assms(1) by simp
  show "localStorage (snd (saveCart c s)) key = Some (JSON_stringify c)"
    using saveCart_storage [OF assms(1), of c] by simp
qed

lemma getCart_key: "getCart s = Inr c \<Longrightarrow> \<exists>key. getCartKey s = Inr key"
  by (cases "getCartKey s") (simp_all add: getCart_def)

lemma getCart_wf: "getCart s = Inr c \<Longrightarrow> wf_json c"
  by (auto simp: getCart_def split: sum.splits dest: JSON_parse_wf)

lemma saveCart_no_views:
  "getCartKey s = Inr key \<Longrightarrow> cart_count_el s = None \<Longrightarrow> checkout_container s = None
   \<Longrightarrow> saveCart c s = (Inr (), setItem key (JSON_stringify c) s)"
  by (simp add: saveCart_def updateCartUI_def renderCheckout_def setItem_def)

text \<open>
  C8: for every well-formed sequence of line items \<open>X\<close>, \<open>getCart\<close> after \<open>saveCart X\<close>
  (same principal, hence same key) returns \<open>X\<close>, whether or not a dependent view raised
  during the refresh; and \<open>getCart\<close> on a key with no stored entry returns the empty sequence.
\<close>

theorem saveCart_getCart_roundtrip:
  "getCartKey s = Inr key \<Longrightarrow> wf_json (JArr items)
   \<Longrightarrow> getCartKey (snd (saveCart (JArr items) s)) = Inr key
     \<and> getCart (snd (saveCart (JArr items) s)) = Inr (JArr items)
     \<and> (localStorage s key = None \<longrightarrow> getCart s = Inr (JArr []))"
  using getCart_saveCart [of s key "JArr items"] getCartKey_saveCart [of "JArr items" s]
    getCart_absent [of s key]
  by simp

theorem saveCart_getCart_roundtrip_witness:
  "getCartKey fresh_page = Inr ''fs_cart_guest''
   \<and> wf_json (JArr [JObj [(''id'', JNum 1 0), (''qty'', JNum 2 0)],
                      JObj [(''id'', JNum 2 0), (''price'', JNum 10995 2), (''qty'', JNum 3 0)]])
   \<and> localStorage fresh_page ''fs_cart_guest'' = None
   \<and> getCart fresh_page = Inr (JArr [])
   \<and> fst (saveCart (JArr [JObj [(''id'', JNum 1 0), (''qty'', JNum 2 0)],
                      JObj [(''id'', JNum 2 0), (''price'', JNum 10995 2), (''qty'', JNum 3 0)]])
          fresh_page) = Inr ()
   \<and> getCart (snd (saveCart
          (JArr [JObj [(''id'', JNum 1 0), (''qty'', JNum 2 0)],
                 JObj [(''id'', JNum 2 0), (''price'', JNum 10995 2), (''qty'', JNum 3 0)]])
          fresh_page))
       = Inr (JArr [JObj [(''id'', JNum 1 0), (''qty'', JNum 2 0)],
                    JObj [(''id'', JNum 2 0), (''price'', JNum 10995 2), (''qty'', JNum 3 0)]])"
proof -
  let ?X = "[JObj [(''id'', JNum 1 0), (''qty'', JNum 2 0)],
             JObj [(''id'', JNum 2 0), (''price'', JNum 10995 2), (''qty'', JNum 3 0)]]"
  have k: "getCartKey fresh_page = Inr ''fs_cart_guest''"
    unfolding fresh_page_def by code_simp
  have wf: "wf_json (JArr ?X)"
    by (simp add: num_ok_def)
  have none: "localStorage fresh_page ''fs_cart_guest'' = None"
    by (simp add: fresh_page_def)
  have ok: "fst (saveCart (JArr ?X) fresh_page) = Inr ()"
    using saveCart_no_views [OF k, of "JArr ?X"] by (simp add: fresh_page_def)
  show ?thesis
    using saveCart_getCart_roundtrip [OF k wf] k wf none ok by simp
qed

section \<open>Adding a product\<close>

lemma addToCart_guest:
  "getCurrentUser s = Inr user \<Longrightarrow> \<not> truthy user
   \<Longrightarrow> addToCart product s = (Inr (), showFloatingMessage ''Please login first!'' ''danger'' s)"
  by (simp add: addToCart_def)

lemma showFloatingMessage_mounted:
  "floating_message_el s = Some el
   \<Longrightarrow> floating_message_el (showFloatingMessage m t s)
       = Some (el\<lparr>el_text := m, el_classes := [''message-'' @ t, ''show'']\<rparr>)"
  by (simp add: showFloatingMessage_def)

text \<open>
  C3: with no active principal, \<open>addToCart\<close> returns normally (nothing is raised), asks for
  the floating message \<^verbatim>\<open>Please login first!\<close> of type \<^verbatim>\<open>danger\<close>, which a mounted message surface
  then displays, and leaves every entry of \<^verbatim>\<open>localStorage\<close>, so the cart at every namespace
  key, unchanged.
\<close>

theorem addToCart_unauthenticated:
  "getCurrentUser s = Inr user \<Longrightarrow> \<not> truthy user
   \<Longrightarrow> addToCart product s = (Inr (), showFloatingMessage ''Please login first!'' ''danger'' s)
     \<and> localStorage (snd (addToCart product s)) = localStorage s
     \<and> (\<forall>el. floating_message_el s = Some el \<longrightarrow>
           floating_message_el (snd (addToCart product s))
             = Some (el\<lparr>el_text := ''Please login first!'',
                        el_classes := [''message-danger'', ''show'']\<rparr>))"
  using showFloatingMessage_mounted [of s _ "''Please login first!''" "''danger''"]
  by (simp add: addToCart_guest)

theorem addToCart_unauthenticated_witness:
  "getCurrentUser (store_page\<lparr>localStorage := Map.empty\<rparr>) = Inr JNull \<and> \<not> truthy JNull
   \<and> fst (addToCart backpack (store_page\<lparr>localStorage := Map.empty\<rparr>)) = Inr ()
   \<and> localStorage (snd (addToCart backpack (store_page\<lparr>localStorage := Map.empty\<rparr>))) = Map.empty
   \<and> floating_message_el (snd (addToCart backpack (store_page\<lparr>localStorage := Map.empty\<rparr>)))
       = Some \<lparr>el_text = ''Please login first!'', el_classes = [''message-danger'', ''show'']\<rparr>"
proof -
  let ?s = "store_page\<lparr>localStorage := Map.empty\<rparr>"
  have guest: "getCurrentUser ?s = Inr JNull"
    unfolding store_page_def by code_simp
  have el: "floating_message_el ?s = Some \<lparr>el_text = '''', el_classes = [''d-none'']\<rparr>"
    by (simp add: store_page_def)
  have ls: "localStorage ?s = Map.empty" by simp
  have nt: "\<not> truthy JNull" by simp
  note t = addToCart_unauthenticated [OF guest nt, of backpack]
  have r: "fst (addToCart backpack ?s) = Inr ()" using t by simp
  have l: "localStorage (snd (addToCart backpack ?s)) = Map.empty" using t ls by metis
  have f: "floating_message_el (snd (addToCart backpack ?s))
      = Some (\<lparr>el_text = '''', el_classes = [''d-none'']\<rparr>
               \<lparr>el_text := ''Please login first!'', el_classes := [''message-danger'', ''show'']\<rparr>)"
    using t el by blast
  show ?thesis using guest nt r l f by simp
qed
lemma map_of_obj_set: "map_of (obj_set ps k v) k' = (if k' = k then Some v else map_of ps k')"
  by (induction ps) auto

lemma strict_eq_refl: "x = None \<or> primitive (the x) \<Longrightarrow> strict_eq x x"
proof (cases x)
  case None
  then show ?thesis by simp
next
  case (Some v)
  assume "x = None \<or> primitive (the x)"
  then show ?thesis using Some by (cases v) simp_all
qed

lemma js_some_append:
  "js_some p (xs @ ys)
     = (case js_some p xs of Inl e \<Rightarrow> Inl e | Inr b \<Rightarrow> if b then Inr True else js_some p ys)"
  by (induction xs) (auto split: sum.splits)

lemma js_some_False: "js_some p xs = Inr False \<Longrightarrow> \<forall>x \<in> set xs. p x = Inr False"
  by (induction xs) (auto split: sum.splits if_splits)

lemma line_item_qty: "get_prop (line_item_of product) ''qty'' = Inr (Some (JNum 1 0))"
  by (simp add: line_item_of_def map_of_obj_set)

lemma get_prop_id: "item \<noteq> JNull \<Longrightarrow> get_prop item ''id'' = Inr (item_id item)"
  by (cases item) simp_all

lemma show_nat_inj: "show_nat a = show_nat b \<Longrightarrow> a = b"
  by (metis nat_of_digits_show_nat)

lemma keys_indexed: "map fst (indexed n vs) = map show_nat [n ..< n + length vs]"
proof (induction vs arbitrary: n)
  case Nil
  show ?case by simp
next
  case (Cons v vs)
  have "[n ..< n + length (v # vs)] = n # [Suc n ..< Suc n + length vs]"
    using upt_conv_Cons [of n "n + Suc (length vs)"] by simp
  then show ?case using Cons.IH [of "Suc n"] by simp
qed

lemma distinct_indexed: "distinct (map fst (indexed n vs))"
  unfolding keys_indexed by (simp add: distinct_map inj_on_def show_nat_inj)

lemma wf_members_indexed: "wf_elems vs \<Longrightarrow> wf_members (indexed n vs)"
  by (induction vs arbitrary: n) auto

lemma wf_elems_chars: "wf_elems (map (\<lambda>c. JStr [c]) s)"
  by (induction s) auto

lemma id_not_index: "''id'' \<notin> fst ` set (indexed n vs)"
proof
  assume "''id'' \<in> fst ` set (indexed n vs)"
  then have "''id'' \<in> set (map fst (indexed n vs))" by simp
  then obtain k where "''id'' = show_nat k" unfolding keys_indexed by auto
  then have "is_digit (CHR ''i'')" using show_nat_digits [of k] by (metis list.set_intros(1))
  then show False by (simp add: is_digit_def)
qed

lemma map_of_indexed_id: "map_of (indexed n vs) ''id'' = None"
  using id_not_index [of n vs] by (simp add: map_of_eq_None_iff)

lemma wf_own_props:
  "wf_json product \<Longrightarrow> distinct (map fst (own_props product)) \<and> wf_members (own_props product)"
  by (cases product) (simp_all add: distinct_indexed wf_members_indexed wf_elems_chars)

lemma wf_line_item: "wf_json product \<Longrightarrow> wf_json (line_item_of product)"
  using wf_own_props [of product]
  by (simp add: line_item_of_def distinct_obj_set wf_members_obj_set num_ok_def)

lemma item_id_line_item: "item_id (line_item_of product) = item_id product"
  by (cases product) (simp_all add: line_item_of_def map_of_obj_set map_of_indexed_id)

lemma same_id_value:
  "item \<noteq> JNull \<Longrightarrow> product \<noteq> JNull
   \<Longrightarrow> same_id product item = Inr (strict_eq (item_id item) (item_id product))"
  by (simp add: same_id_def get_prop_id)

lemma same_id_null: "item \<noteq> JNull \<Longrightarrow> same_id JNull item = Inl TypeError"
  by (simp add: same_id_def get_prop_id)

lemma wf_elems_append: "wf_elems (xs @ ys) = (wf_elems xs \<and> wf_elems ys)"
  by (induction xs) auto

lemma addToCart_new:
  assumes "getCurrentUser s = Inr user" and "truthy user"
    and "getCart s = Inr (JArr items)" and "js_some (same_id product) items = Inr False"
  shows "addToCart product s
    = (case saveCart (JArr (items @ [line_item_of product])) s of
         (Inl e, s') \<Rightarrow> (Inl e, s')
       | (Inr u, s') \<Rightarrow> (Inr (), showFloatingMessage ''Product added to cart!'' ''success'' s'))"
  using assms by (simp add: addToCart_def)

lemma addToCart_new_storage:
  assumes "getCurrentUser s = Inr user" and "truthy user"
    and "getCart s = Inr (JArr items)" and "js_some (same_id product) items = Inr False"
    and "getCartKey s = Inr key"
  shows "localStorage (snd (addToCart product s))
    = (localStorage s)(key \<mapsto> JSON_stringify (JArr (items @ [line_item_of product])))"
proof -
  let ?c = "JArr (items @ [line_item_of product])"
  obtain res s' where sv: "saveCart ?c s = (res, s')" by (cases "saveCart ?c s")
  have st: "localStorage s' = (localStorage s)(key \<mapsto> JSON_stringify ?c)"
    using saveCart_storage [OF assms(5), of ?c] sv by simp
  show ?thesis
    unfolding addToCart_new [OF assms(1-4)] sv using st by (cases res) simp_all
qed

lemma addToCart_dup:
  assumes "getCurrentUser s = Inr user" and "truthy user"
    and "getCart s = Inr (JArr items)" and "js_some (same_id product) items = Inr True"
  shows "addToCart product s
    = (Inr (), showFloatingMessage ''Product already in cart!'' ''danger'' s)"
  using assms by (simp add: addToCart_def)

lemma truthy_key: "getCurrentUser s = Inr user \<Longrightarrow> truthy user \<Longrightarrow> \<exists>key. getCartKey s = Inr key"
  by (cases user) (simp_all add: getCartKey_def)

text \<open>
  C4: let the active principal add a product (any JSON value but \<^verbatim>\<open>null\<close>, whose id, if it has
  one, is a primitive value) to a cart in which no line item has that id. The first call
  persists the cart with the new line item appended. The second call with the same product
  returns normally, asks for the floating message \<^verbatim>\<open>Product already in cart!\<close> (the duplicate
  signal) and changes nothing in \<^verbatim>\<open>localStorage\<close>; the persisted cart then has exactly one
  line item with the product's id, and its \<^verbatim>\<open>qty\<close> is \<open>1\<close>.
\<close>

theorem addToCart_twice:
  assumes "getCurrentUser s = Inr user" and "truthy user"
    and "getCart s = Inr (JArr items)"
    and "wf_json product" and "product \<noteq> JNull"
    and "\<forall>pid. item_id product = Some pid \<longrightarrow> primitive pid"
    and "js_some (same_id product) items = Inr False"
  shows "getCart (snd (addToCart product s)) = Inr (JArr (items @ [line_item_of product]))
    \<and> addToCart product (snd (addToCart product s))
        = (Inr (), showFloatingMessage ''Product already in cart!'' ''danger''
                     (snd (addToCart product s)))
    \<and> getCart (snd (addToCart product (snd (addToCart product s))))
        = Inr (JArr (items @ [line_item_of product]))
    \<and> filter (\<lambda>item. same_id product item = Inr True) (items @ [line_item_of product])
        = [line_item_of product]
    \<and> get_prop (line_item_of product) ''qty'' = Inr (Some (JNum 1 0))"
proof -
  let ?li = "line_item_of product"
  let ?c = "JArr (items @ [?li])"
  let ?s1 = "snd (addToCart product s)"
  obtain key where key: "getCartKey s = Inr key" using truthy_key [OF assms(1,2)] by blast
  have na: "key \<noteq> ''activeUser''" using key by (rule getCartKey_not_activeUser)
  have st1: "localStorage ?s1 = (localStorage s)(key \<mapsto> JSON_stringify ?c)"
    by (rule addToCart_new_storage [OF assms(1,2,3,7) key])
  have au: "localStorage ?s1 ''activeUser'' = localStorage s ''activeUser''"
    using st1 na by simp
  have user1: "getCurrentUser ?s1 = Inr user"
    using getCurrentUser_cong [OF au] assms(1) by simp
  have key1: "getCartKey ?s1 = Inr key"
    using getCartKey_cong [OF au] key by simp
  have wf: "wf_json ?c"
    using getCart_wf [OF assms(3)] wf_line_item [OF assms(4)] by (simp add: wf_elems_append)
  have cart1: "getCart ?s1 = Inr ?c"
    by (rule getCart_stored [OF key1 wf]) (simp add: st1)
  have "item_id product = None \<or> primitive (the (item_id product))"
    using assms(6) by (cases "item_id product") simp_all
  then have "strict_eq (item_id product) (item_id product)" by (rule strict_eq_refl)
  moreover have "?li \<noteq> JNull" by (simp add: line_item_of_def)
  ultimately have same: "same_id product ?li = Inr True"
    using same_id_value [of ?li product] assms(5) by (simp add: item_id_line_item)
  have dup: "js_some (same_id product) (items @ [?li]) = Inr True"
    using assms(7) same by (simp add: js_some_append)
  have second: "addToCart product ?s1
      = (Inr (), showFloatingMessage ''Product already in cart!'' ''danger'' ?s1)"
    by (rule addToCart_dup [OF user1 assms(2) cart1 dup])
  have "localStorage (snd (addToCart product ?s1)) = localStorage ?s1"
    by (simp add: second)
  then have cart2: "getCart (snd (addToCart product ?s1)) = Inr ?c"
    using getCart_cong [of "snd (addToCart product ?s1)" ?s1] cart1 by simp
  have "filter (\<lambda>item. same_id product item = Inr True) items = []"
    using js_some_False [OF assms(7)] by (auto simp: filter_empty_conv)
  then have one: "filter (\<lambda>item. same_id product item = Inr True) (items @ [?li]) = [?li]"
    using same by simp
  show ?thesis using cart1 second cart2 one line_item_qty [of product] by blast
qed
lemma cart_count_el_renderCheckout [simp]:
  "cart_count_el (snd (renderCheckout s)) = cart_count_el s"
  by (simp add: renderCheckout_def render_cart_def navigateTo_def
      split: option.splits sum.splits jsval.splits)

lemma getCart_setItem:
  "getCartKey s = Inr key \<Longrightarrow> wf_json c \<Longrightarrow> getCart (setItem key (JSON_stringify c) s) = Inr c"
proof -
  assume k: "getCartKey s = Inr key" and wf: "wf_json c"
  have "getCartKey (setItem key (JSON_stringify c) s) = Inr key"
    using getCartKey_setItem [OF getCartKey_not_activeUser [OF k]] k by simp
  then show ?thesis by (rule getCart_stored [OF _ wf]) (simp add: setItem_def)
qed

text \<open>
  When \<open>saveCart\<close> returns normally with the badge mounted, the badge shows the count of the
  cart that was just persisted, and is hidden exactly when that count is zero.
\<close>

lemma saveCart_badge:
  assumes k: "getCartKey s = Inr key" and el: "cart_count_el s = Some el"
    and ok: "fst (saveCart c s) = Inr ()"
  shows "\<exists>n. cartCount (snd (saveCart c s)) = Inr n
    \<and> cart_count_el (snd (saveCart c s))
        = Some (el\<lparr>el_text := show_num n 0,
                   el_classes := class_toggle ''d-none'' (n = 0) (el_classes el)\<rparr>)"
proof -
  let ?s0 = "setItem key (JSON_stringify c) s"
  have el0: "cart_count_el ?s0 = Some el" using el by (simp add: setItem_def)
  show ?thesis
  proof (cases "cartCount ?s0")
    case (Inl e)
    then have "saveCart c s = (Inl e, ?s0)"
      using k el0 by (simp add: saveCart_def updateCartUI_def)
    then show ?thesis using ok by simp
  next
    case (Inr n)
    let ?s1 = "?s0\<lparr>cart_count_el := Some (el\<lparr>el_text := show_num n 0,
        el_classes := class_toggle ''d-none'' (n = 0) (el_classes el)\<rparr>)\<rparr>"
    have ui: "updateCartUI ?s0 = (Inr (), ?s1)"
      using el0 Inr by (simp add: updateCartUI_def)
    have sv: "saveCart c s = renderCheckout ?s1"
      using k ui by (simp add: saveCart_def)
    have "localStorage (snd (renderCheckout ?s1)) = localStorage ?s0" by simp
    then have "cartCount (snd (saveCart c s)) = Inr n"
      using cartCount_cong [of "snd (renderCheckout ?s1)" ?s0] Inr sv by simp
    moreover have "cart_count_el (snd (saveCart c s))
        = Some (el\<lparr>el_text := show_num n 0,
                   el_classes := class_toggle ''d-none'' (n = 0) (el_classes el)\<rparr>)"
      by (simp add: sv)
    ultimately show ?thesis by blast
  qed
qed

lemma saveCart_badge_only:
  assumes k: "getCartKey s = Inr key" and wf: "wf_json (JArr items)"
    and el: "cart_count_el s = Some el" and nc: "checkout_container s = None"
    and n: "sum_qty 0 items = Inr n"
  shows "fst (saveCart (JArr items) s) = Inr ()"
proof -
  let ?s0 = "setItem key (JSON_stringify (JArr items)) s"
  have "cartCount ?s0 = Inr n"
    using getCart_setItem [OF k wf] n by (simp add: cartCount_def)
  moreover have "cart_count_el ?s0 = Some el" using el by (simp add: setItem_def)
  ultimately show ?thesis
    using k nc by (simp add: saveCart_def updateCartUI_def renderCheckout_def setItem_def)
qed

theorem addToCart_twice_witness:
  "getCurrentUser store_page = Inr ada \<and> truthy ada
   \<and> getCart store_page = Inr (JArr [])
   \<and> wf_json backpack \<and> backpack \<noteq> JNull
   \<and> item_id backpack = Some (JNum 1 0) \<and> primitive (JNum 1 0)
   \<and> js_some (same_id backpack) [] = Inr False
   \<and> fst (addToCart backpack store_page) = Inr ()
   \<and> getCart (snd (addToCart backpack store_page)) = Inr (JArr [line_item_of backpack])
   \<and> addToCart backpack (snd (addToCart backpack store_page))
       = (Inr (), showFloatingMessage ''Product already in cart!'' ''danger''
                    (snd (addToCart backpack store_page)))
   \<and> getCart (snd (addToCart backpack (snd (addToCart backpack store_page))))
       = Inr (JArr [line_item_of backpack])
   \<and> get_prop (line_item_of backpack) ''qty'' = Inr (Some (JNum 1 0))"
proof -
  let ?kvs = "[(''id'', JNum 1 0), (''title'', JStr ''Backpack''), (''price'', JNum 10995 2),
               (''description'', JStr ''Fits 15 inch laptops''), (''image'', JStr ''b.jpg'')]"
  have bp: "backpack = JObj ?kvs" by (simp add: backpack_def)
  have user: "getCurrentUser store_page = Inr ada"
    unfolding store_page_def ada_def by code_simp
  have tr: "truthy ada" by (simp add: ada_def)
  have key: "getCartKey store_page = Inr ''fs_cart_ada@example.com''"
    using getCartKey_email [of store_page _ "''ada@example.com''"] user by (simp add: ada_def)
  have cart: "getCart store_page = Inr (JArr [])"
    by (rule getCart_absent [OF key]) (simp add: store_page_def)
  have wf: "wf_json (JObj ?kvs)" by (simp add: num_ok_def)
  have nn: "JObj ?kvs \<noteq> JNull" by simp
  have pid: "item_id (JObj ?kvs) = Some (JNum 1 0)" by simp
  have prim: "\<forall>pid. item_id (JObj ?kvs) = Some pid \<longrightarrow> primitive pid" by simp
  have fresh: "js_some (same_id (JObj ?kvs)) [] = Inr False" by simp
  note t = addToCart_twice [OF user tr cart wf nn prim fresh]
  have wfc: "wf_json (JArr ([] @ [line_item_of (JObj ?kvs)]))"
    using wf_line_item [OF wf] by simp
  have first: "fst (addToCart (JObj ?kvs) store_page) = Inr ()"
  proof -
    have "fst (saveCart (JArr ([] @ [line_item_of (JObj ?kvs)])) store_page) = Inr ()"
      by (rule saveCart_badge_only [OF key wfc, of _ 1])
         (simp_all add: store_page_def line_item_qty)
    then show ?thesis
      unfolding addToCart_new [OF user tr cart fresh]
      by (cases "saveCart (JArr ([] @ [line_item_of (JObj ?kvs)])) store_page") auto
  qed
  show ?thesis
    using t user tr cart wf nn pid fresh first unfolding bp by (elim conjE) simp
qed

section \<open>Changing a quantity, removing an item\<close>

lemma id_is_value: "item \<noteq> JNull \<Longrightarrow> id_is a item = Inr (strict_eq (item_id item) a)"
  by (simp add: id_is_def get_prop_id)

lemma id_is_not_value: "item \<noteq> JNull \<Longrightarrow> id_is_not a item = Inr (\<not> strict_eq (item_id item) a)"
  by (simp add: id_is_not_def get_prop_id)

lemma js_filter_id_is_not:
  "JNull \<notin> set xs
   \<Longrightarrow> js_filter (id_is_not a) xs = Inr (filter (\<lambda>x. \<not> strict_eq (item_id x) a) xs)"
  by (induction xs) (auto simp: id_is_not_value)

lemma js_some_id_is:
  "JNull \<notin> set xs \<Longrightarrow> js_some (id_is a) xs = Inr (\<exists>x \<in> set xs. strict_eq (item_id x) a)"
  by (induction xs) (auto simp: id_is_value)

lemma js_find_index_id_is:
  "JNull \<notin> set xs
   \<Longrightarrow> js_find_index (id_is a) xs
       = Inr (if \<exists>x \<in> set xs. strict_eq (item_id x) a
              then Some (length (takeWhile (\<lambda>x. \<not> strict_eq (item_id x) a) xs))
              else None)"
  by (induction xs) (auto simp: id_is_value)

lemma js_find_index_Some:
  "js_find_index p xs = Inr (Some i) \<Longrightarrow> i < length xs \<and> p (xs ! i) = Inr True"
proof (induction xs arbitrary: i)
  case Nil
  then show ?case by simp
next
  case (Cons x xs)
  show ?case
  proof (cases "p x = Inr True")
    case True
    then show ?thesis using Cons.prems by simp
  next
    case False
    then obtain j where j: "js_find_index p xs = Inr (Some j)" and i: "i = Suc j"
      using Cons.prems by (auto split: sum.splits if_splits option.splits)
    show ?thesis using Cons.IH [OF j] i by simp
  qed
qed

lemma id_is_True:
  "id_is (Some a) item = Inr True \<Longrightarrow> \<exists>kvs. item = JObj kvs \<and> strict_eq (map_of kvs ''id'') (Some a)"
  by (cases item) (auto simp: id_is_def)

lemma updateQuantity_absent:
  "getCart s = Inr (JArr items) \<Longrightarrow> js_find_index (id_is (Some ident)) items = Inr None
   \<Longrightarrow> updateQuantity ident change s = (Inr (), s)"
  by (simp add: updateQuantity_def)

lemma updateQuantity_found:
  assumes "getCart s = Inr (JArr items)"
    and "js_find_index (id_is (Some ident)) items = Inr (Some i)"
    and "items ! i = JObj kvs" and "map_of kvs ''qty'' = Some (JNum q 0)"
  shows "updateQuantity ident change s
    = (if q + change \<le> 0
       then (case js_filter (id_is_not (Some ident))
                    (items[i := JObj (obj_set kvs ''qty'' (JNum (q + change) 0))]) of
               Inl e \<Rightarrow> (Inl e, s)
             | Inr kept \<Rightarrow> saveCart (JArr kept) s)
       else saveCart (JArr (items[i := JObj (obj_set kvs ''qty'' (JNum (q + change) 0))])) s)"
  using assms by (simp add: updateQuantity_def bump_qty_def)

lemma item_id_obj_set_qty: "item_id (JObj (obj_set kvs ''qty'' v)) = item_id (JObj kvs)"
  by (simp add: map_of_obj_set)

lemma filter_list_update_gone:
  "i < length xs \<Longrightarrow> \<not> P (xs ! i) \<Longrightarrow> \<not> P y \<Longrightarrow> filter P (xs[i := y]) = filter P xs"
proof (induction xs arbitrary: i)
  case Nil
  then show ?case by simp
next
  case (Cons x xs)
  then show ?case by (cases i) auto
qed

lemma updateQuantity_saves:
  assumes cart: "getCart s = Inr (JArr items)" and nn: "JNull \<notin> set items"
    and found: "js_find_index (id_is (Some ident)) items = Inr (Some i)"
    and item: "items ! i = JObj kvs" and qty: "map_of kvs ''qty'' = Some (JNum q 0)"
  shows "updateQuantity ident change s
    = saveCart (JArr (if q + change \<le> 0
                      then filter (\<lambda>x. \<not> strict_eq (item_id x) (Some ident)) items
                      else items[i := JObj (obj_set kvs ''qty'' (JNum (q + change) 0))])) s"
proof -
  let ?item' = "JObj (obj_set kvs ''qty'' (JNum (q + change) 0))"
  have i: "i < length items" and hit: "id_is (Some ident) (items ! i) = Inr True"
    using js_find_index_Some [OF found] by simp_all
  have match: "strict_eq (item_id (items ! i)) (Some ident)"
    using hit item by (simp add: id_is_def)
  have match': "strict_eq (item_id ?item') (Some ident)"
    using match item by (simp add: map_of_obj_set)
  have nn': "JNull \<notin> set (items[i := ?item'])"
    using nn by (auto dest!: set_update_subset_insert [THEN subsetD])
  have "filter (\<lambda>x. \<not> strict_eq (item_id x) (Some ident)) (items[i := ?item'])
      = filter (\<lambda>x. \<not> strict_eq (item_id x) (Some ident)) items"
    by (rule filter_list_update_gone [OF i]) (use match match' in simp_all)
  then have "js_filter (id_is_not (Some ident)) (items[i := ?item'])
      = Inr (filter (\<lambda>x. \<not> strict_eq (item_id x) (Some ident)) items)"
    using js_filter_id_is_not [OF nn'] by simp
  then show ?thesis
    unfolding updateQuantity_found [OF cart found item qty] by simp
qed

lemma wf_elems_iff: "wf_elems xs = (\<forall>x \<in> set xs. wf_json x)"
  by (induction xs) auto

lemma wf_elems_filter: "wf_elems xs \<Longrightarrow> wf_elems (filter P xs)"
  by (simp add: wf_elems_iff)

lemma wf_elems_update: "wf_elems xs \<Longrightarrow> wf_json y \<Longrightarrow> wf_elems (xs[i := y])"
  by (auto simp: wf_elems_iff dest!: set_update_subset_insert [THEN subsetD])

lemma wf_set_qty: "wf_json (JObj kvs) \<Longrightarrow> wf_json (JObj (obj_set kvs ''qty'' (JNum n 0)))"
  by (simp add: distinct_obj_set wf_members_obj_set num_ok_def)

lemma wf_nth: "wf_elems xs \<Longrightarrow> i < length xs \<Longrightarrow> wf_json (xs ! i)"
  by (simp add: wf_elems_iff)

text \<open>
  C5: in a cart of line items (no element is \<^verbatim>\<open>null\<close>) let \<open>find\<close> return the item at
  position \<open>i\<close> for the given id, with an integer quantity \<open>q\<close>. If \<open>q + change \<le> 0\<close>, the cart
  persisted by \<open>updateQuantity\<close> is the old one without every item of that id: no line item
  with the id is left, at any quantity. With \<open>change = - q\<close> this is the removal of the item.
\<close>

theorem updateQuantity_removes:
  assumes "getCart s = Inr (JArr items)" and "JNull \<notin> set items"
    and "js_find_index (id_is (Some ident)) items = Inr (Some i)"
    and "items ! i = JObj kvs" and "map_of kvs ''qty'' = Some (JNum q 0)"
    and "q + change \<le> 0"
  shows "getCart (snd (updateQuantity ident change s))
      = Inr (JArr (filter (\<lambda>x. \<not> strict_eq (item_id x) (Some ident)) items))
    \<and> js_some (id_is (Some ident)) (filter (\<lambda>x. \<not> strict_eq (item_id x) (Some ident)) items)
      = Inr False"
proof -
  let ?kept = "filter (\<lambda>x. \<not> strict_eq (item_id x) (Some ident)) items"
  obtain key where key: "getCartKey s = Inr key" using getCart_key [OF assms(1)] by blast
  have wf: "wf_json (JArr ?kept)"
    using getCart_wf [OF assms(1)] by (simp add: wf_elems_filter)
  have "updateQuantity ident change s = saveCart (JArr ?kept) s"
    using updateQuantity_saves [OF assms(1-5), of change] assms(6) by simp
  then have "getCart (snd (updateQuantity ident change s)) = Inr (JArr ?kept)"
    using getCart_saveCart [OF key wf] by simp
  moreover have "JNull \<notin> set ?kept" using assms(2) by simp
  then have "js_some (id_is (Some ident)) ?kept = Inr False"
    by (simp add: js_some_id_is)
  ultimately show ?thesis by simp
qed
lemma store_page_user: "getCurrentUser store_page = Inr ada"
  unfolding store_page_def ada_def by code_simp

lemma store_page_key: "getCartKey store_page = Inr ''fs_cart_ada@example.com''"
  using getCartKey_email [of store_page _ "''ada@example.com''"] store_page_user
  by (simp add: ada_def)

lemma store_page_cart: "getCart store_page = Inr (JArr [])"
  by (rule getCart_absent [OF store_page_key]) (simp add: store_page_def)

lemma wf_two_items: "wf_json (JArr two_items)"
  by (simp add: two_items_def num_ok_def)

lemma cart_page_user: "getCurrentUser cart_page = Inr ada"
  using getCurrentUser_setItem [of "''fs_cart_ada@example.com''" _ store_page] store_page_user
  by (simp add: cart_page_def)

lemma cart_page_key: "getCartKey cart_page = Inr ''fs_cart_ada@example.com''"
  using getCartKey_setItem [of "''fs_cart_ada@example.com''" _ store_page] store_page_key
  by (simp add: cart_page_def)

lemma cart_page_cart: "getCart cart_page = Inr (JArr two_items)"
  unfolding cart_page_def by (rule getCart_setItem [OF store_page_key wf_two_items])

theorem updateQuantity_removes_witness:
  "getCart cart_page = Inr (JArr two_items) \<and> JNull \<notin> set two_items
   \<and> js_find_index (id_is (Some (JNum 1 0))) two_items = Inr (Some 0)
   \<and> two_items ! 0 = JObj [(''id'', JNum 1 0), (''title'', JStr ''Backpack''), (''qty'', JNum 2 0)]
   \<and> fst (updateQuantity (JNum 1 0) (- 2) cart_page) = Inr ()
   \<and> getCart (snd (updateQuantity (JNum 1 0) (- 2) cart_page))
       = Inr (JArr [JObj [(''id'', JNum 2 0), (''title'', JStr ''Shirt''), (''qty'', JNum 3 0)]])"
proof -
  let ?kvs = "[(''id'', JNum 1 0), (''title'', JStr ''Backpack''), (''qty'', JNum 2 0)]"
  let ?rest = "[JObj [(''id'', JNum 2 0), (''title'', JStr ''Shirt''), (''qty'', JNum 3 0)]]"
  have nn: "JNull \<notin> set two_items" by (simp add: two_items_def)
  have found: "js_find_index (id_is (Some (JNum 1 0))) two_items = Inr (Some 0)"
    by (simp add: two_items_def id_is_def)
  have item: "two_items ! 0 = JObj ?kvs" by (simp add: two_items_def)
  have qty: "map_of ?kvs ''qty'' = Some (JNum 2 0)" by simp
  have le: "(2::int) + (- 2) \<le> 0" by simp
  have kept: "filter (\<lambda>x. \<not> strict_eq (item_id x) (Some (JNum 1 0))) two_items = ?rest"
    by (simp add: two_items_def)
  note t = updateQuantity_removes [OF cart_page_cart nn found item qty le]
  have sv: "updateQuantity (JNum 1 0) (- 2) cart_page = saveCart (JArr ?rest) cart_page"
    using updateQuantity_saves [OF cart_page_cart nn found item qty, of "- 2"] kept by simp
  have "fst (saveCart (JArr ?rest) cart_page) = Inr ()"
    by (rule saveCart_badge_only [OF cart_page_key, of _ _ 3])
       (simp_all add: cart_page_def store_page_def setItem_def num_ok_def)
  then have ok: "fst (updateQuantity (JNum 1 0) (- 2) cart_page) = Inr ()" using sv by simp
  show ?thesis using t cart_page_cart nn found item ok unfolding kept by simp
qed
lemma checkout_container_updateCartUI [simp]:
  "checkout_container (snd (updateCartUI s)) = checkout_container s"
  by (simp add: updateCartUI_def split: option.splits sum.splits)

lemma updateCartUI_Inl: "updateCartUI s = (Inl e, s') \<Longrightarrow> s' = s"
  by (auto simp: updateCartUI_def split: option.splits sum.splits)

text \<open>
  When \<open>saveCart\<close> returns normally with a checkout view mounted and a principal active,
  the view has been rendered again from the cart that was just persisted.
\<close>

lemma saveCart_checkout:
  assumes k: "getCartKey s = Inr key" and wf: "wf_json (JArr items)"
    and view: "checkout_container s = Some view"
    and user: "getCurrentUser s = Inr user" and tr: "truthy user"
    and ok: "fst (saveCart (JArr items) s) = Inr ()"
  shows "checkout_container (snd (saveCart (JArr items) s))
    = Some (if items = [] then EmptyNotice else Listing items)"
proof -
  define c where "c = JArr items"
  define s0 where "s0 = setItem key (JSON_stringify c) s"
  have wfc: "wf_json c" using wf by (simp add: c_def)
  have okc: "fst (saveCart c s) = Inr ()" using ok by (simp add: c_def)
  obtain res s1 where ui: "updateCartUI s0 = (res, s1)" by (cases "updateCartUI s0")
  have res: "res = Inr ()"
    using okc k ui by (cases res) (simp_all add: saveCart_def s0_def)
  have sv: "saveCart c s = renderCheckout s1"
    using k ui res by (simp add: saveCart_def s0_def)
  have ls: "localStorage s1 = localStorage s0"
    using localStorage_updateCartUI [of s0, unfolded ui] by simp
  have view1: "checkout_container s1 = Some view"
    using checkout_container_updateCartUI [of s0, unfolded ui] view by (simp add: s0_def setItem_def)
  have na: "key \<noteq> ''activeUser''" using k by (rule getCartKey_not_activeUser)
  have "localStorage s1 ''activeUser'' = localStorage s ''activeUser''"
    using ls na by (simp add: s0_def setItem_def)
  then have user1: "getCurrentUser s1 = Inr user"
    using getCurrentUser_cong [of s1 s] user by simp
  have "getCart s0 = Inr c" unfolding s0_def by (rule getCart_setItem [OF k wfc])
  then have cart1: "getCart s1 = Inr (JArr items)"
    using getCart_cong [OF ls] by (simp add: c_def)
  have rc: "renderCheckout s1 = render_cart (JArr items) s1"
    using view1 user1 tr cart1 by (simp add: renderCheckout_def)
  have okr: "fst (render_cart (JArr items) s1) = Inr ()"
    using okc by (simp add: sv rc)
  have "checkout_container (snd (render_cart (JArr items) s1))
      = Some (if items = [] then EmptyNotice else Listing items)"
  proof (cases "items = []")
    case True
    then show ?thesis by (simp add: render_cart_def)
  next
    case False
    then have "render_items items = Inr ()"
      using okr by (cases "render_items items") (simp_all add: render_cart_def)
    then show ?thesis using False by (simp add: render_cart_def)
  qed
  then show ?thesis
    using sv rc by (simp add: c_def)
qed



section \<open>The cart invariant is preserved\<close>

lemma no_shared_id_map: "map item_id xs = map item_id ys \<Longrightarrow> no_shared_id xs = no_shared_id ys"
proof (induction xs arbitrary: ys)
  case Nil
  then show ?case by simp
next
  case (Cons x xs)
  then obtain y ys' where ys: "ys = y # ys'" by (cases ys) auto
  have ids: "item_id x = item_id y" "map item_id xs = map item_id ys'"
    using Cons.prems ys by simp_all
  have "list_all (\<lambda>z. \<not> strict_eq (item_id x) (item_id z)) xs
      = list_all (\<lambda>z. \<not> strict_eq (item_id x) z) (map item_id xs)"
    by (simp add: list_all_iff)
  also have "\<dots> = list_all (\<lambda>z. \<not> strict_eq (item_id y) (item_id z)) ys'"
    by (simp add: ids list_all_iff)
  finally show ?case using Cons.IH [OF ids(2)] by (simp add: ys)
qed

lemma no_shared_id_filter: "no_shared_id xs \<Longrightarrow> no_shared_id (filter P xs)"
  by (induction xs) (auto simp: list_all_iff)

lemma no_shared_id_snoc:
  "no_shared_id (xs @ [y])
     = (no_shared_id xs \<and> list_all (\<lambda>x. \<not> strict_eq (item_id x) (item_id y)) xs)"
  by (induction xs) (auto simp: list_all_iff)

lemma positive_qty_obj:
  "positive_qty item \<Longrightarrow> \<exists>kvs q. item = JObj kvs \<and> map_of kvs ''qty'' = Some (JNum q 0) \<and> 0 < q"
proof (cases item)
  case (JObj kvs)
  assume "positive_qty item"
  then show ?thesis using JObj
    by (auto split: option.splits jsval.splits nat.splits)
qed simp_all

lemma invariant_no_null: "cart_invariant items \<Longrightarrow> JNull \<notin> set items"
  by (auto simp: cart_invariant_def list_all_iff)

lemma positive_line_item: "positive_qty (line_item_of product)"
  by (simp add: line_item_of_def map_of_obj_set)

lemma js_some_same_id_False:
  assumes "JNull \<notin> set items" and "js_some (same_id product) items = Inr False"
  shows "list_all (\<lambda>x. \<not> strict_eq (item_id x) (item_id product)) items"
proof (cases "items = []")
  case True
  then show ?thesis by simp
next
  case False
  then obtain x xs where xs: "items = x # xs" by (cases items) auto
  have "product \<noteq> JNull"
  proof
    assume "product = JNull"
    moreover have "x \<noteq> JNull" using assms(1) xs by auto
    ultimately have "same_id product x = Inl TypeError" by (simp add: same_id_null)
    then show False using assms(2) xs by simp
  qed
  moreover have "\<forall>y \<in> set items. y \<noteq> JNull" using assms(1) by auto
  ultimately have "\<forall>y \<in> set items. same_id product y = Inr (strict_eq (item_id y) (item_id product))"
    by (simp add: same_id_value)
  then show ?thesis using js_some_False [OF assms(2)] by (auto simp: list_all_iff)
qed

lemma invariant_added:
  assumes "cart_invariant items" and "js_some (same_id product) items = Inr False"
  shows "cart_invariant (items @ [line_item_of product])"
  using assms js_some_same_id_False [OF invariant_no_null [OF assms(1)] assms(2)]
  by (simp add: cart_invariant_def no_shared_id_snoc item_id_line_item positive_line_item)

lemma invariant_filtered: "cart_invariant items \<Longrightarrow> cart_invariant (filter P items)"
  by (simp add: cart_invariant_def no_shared_id_filter list_all_iff)

lemma invariant_requantified:
  assumes "cart_invariant items" and "i < length items" and "items ! i = JObj kvs"
    and "0 < n"
  shows "cart_invariant (items[i := JObj (obj_set kvs ''qty'' (JNum n 0))])"
proof -
  let ?item' = "JObj (obj_set kvs ''qty'' (JNum n 0))"
  have "item_id ?item' = item_id (items ! i)" using assms(3) by (simp add: map_of_obj_set)
  then have "map item_id (items[i := ?item']) = map item_id items"
    using assms(2) by (simp add: map_update list_update_same_conv)
  then have "no_shared_id (items[i := ?item']) = no_shared_id items" by (rule no_shared_id_map)
  moreover have "positive_qty ?item'" using assms(4) by (simp add: map_of_obj_set)
  then have "list_all positive_qty (items[i := ?item'])"
    using assms(1) by (auto simp: cart_invariant_def list_all_iff dest!: set_update_subset_insert [THEN subsetD])
  ultimately show ?thesis using assms(1) by (simp add: cart_invariant_def)
qed
lemma getCart_written:
  assumes "getCartKey s = Inr key" and "wf_json c"
    and "localStorage s' = (localStorage s)(key \<mapsto> JSON_stringify c)"
  shows "getCart s' = Inr c"
proof (rule getCart_stored [OF _ assms(2)])
  have "localStorage s' ''activeUser'' = localStorage s ''activeUser''"
    using assms(3) getCartKey_not_activeUser [OF assms(1)] by simp
  then show "getCartKey s' = Inr key" using getCartKey_cong [of s' s] assms(1) by simp
  show "localStorage s' key = Some (JSON_stringify c)" using assms(3) by simp
qed

lemma key_user: "getCartKey s = Inr key \<Longrightarrow> \<exists>user. getCurrentUser s = Inr user"
  by (cases "getCurrentUser s") (simp_all add: getCartKey_def)

lemma addToCart_storage_cases:
  assumes cart: "getCart s = Inr (JArr items)" and key: "getCartKey s = Inr key"
  shows "localStorage (snd (addToCart product s)) = localStorage s
    \<or> (js_some (same_id product) items = Inr False
       \<and> localStorage (snd (addToCart product s))
           = (localStorage s)(key \<mapsto> JSON_stringify (JArr (items @ [line_item_of product]))))"
proof -
  obtain user where user: "getCurrentUser s = Inr user" using key_user [OF key] by blast
  show ?thesis
  proof (cases "truthy user")
    case False
    then show ?thesis using addToCart_guest [OF user] by simp
  next
    case True
    show ?thesis
    proof (cases "js_some (same_id product) items")
      case (Inl e)
      then show ?thesis using user True cart by (simp add: addToCart_def)
    next
      case (Inr dup)
      show ?thesis
      proof (cases dup)
        case True
        then show ?thesis using addToCart_dup [OF user \<open>truthy user\<close> cart] Inr by simp
      next
        case False
        then show ?thesis
          using addToCart_new_storage [OF user \<open>truthy user\<close> cart _ key, of product] Inr by simp
      qed
    qed
  qed
qed

lemma addToCart_invariant:
  assumes cart: "getCart s = Inr (JArr items)" and inv: "cart_invariant items"
    and wf: "wf_json product"
  shows "\<exists>items'. getCart (snd (addToCart product s)) = Inr (JArr items') \<and> cart_invariant items'"
proof -
  obtain key where key: "getCartKey s = Inr key" using getCart_key [OF cart] by blast
  consider (same) "localStorage (snd (addToCart product s)) = localStorage s"
    | (added) "js_some (same_id product) items = Inr False"
        "localStorage (snd (addToCart product s))
           = (localStorage s)(key \<mapsto> JSON_stringify (JArr (items @ [line_item_of product])))"
    using addToCart_storage_cases [OF cart key, of product] by blast
  then show ?thesis
  proof cases
    case same
    then have "getCart (snd (addToCart product s)) = Inr (JArr items)"
      using getCart_cong [of "snd (addToCart product s)" s] cart by simp
    then show ?thesis using inv by blast
  next
    case added
    have "wf_json (JArr (items @ [line_item_of product]))"
      using getCart_wf [OF cart] wf_line_item [OF wf] by (simp add: wf_elems_append)
    then have "getCart (snd (addToCart product s)) = Inr (JArr (items @ [line_item_of product]))"
      using getCart_written [OF key _ added(2)] by simp
    then show ?thesis using invariant_added [OF inv added(1)] by blast
  qed
qed

lemma updateQuantity_invariant:
  assumes cart: "getCart s = Inr (JArr items)" and inv: "cart_invariant items"
  shows "\<exists>items'. getCart (snd (updateQuantity ident change s)) = Inr (JArr items')
    \<and> cart_invariant items'"
proof -
  obtain key where key: "getCartKey s = Inr key" using getCart_key [OF cart] by blast
  have nn: "JNull \<notin> set items" using inv by (rule invariant_no_null)
  show ?thesis
  proof (cases "\<exists>x \<in> set items. strict_eq (item_id x) (Some ident)")
    case False
    then have "js_find_index (id_is (Some ident)) items = Inr None"
      using js_find_index_id_is [OF nn, of "Some ident"] by simp
    then have "updateQuantity ident change s = (Inr (), s)"
      by (rule updateQuantity_absent [OF cart])
    then show ?thesis using cart inv by auto
  next
    case True
    define i where "i = length (takeWhile (\<lambda>x. \<not> strict_eq (item_id x) (Some ident)) items)"
    have found: "js_find_index (id_is (Some ident)) items = Inr (Some i)"
      using js_find_index_id_is [OF nn, of "Some ident"] True by (simp add: i_def)
    have i: "i < length items" using js_find_index_Some [OF found] by simp
    have "positive_qty (items ! i)"
      using inv i by (simp add: cart_invariant_def list_all_length)
    then obtain kvs q where item: "items ! i = JObj kvs"
      and qty: "map_of kvs ''qty'' = Some (JNum q 0)" and q: "0 < q"
      using positive_qty_obj by blast
    let ?R = "if q + change \<le> 0
              then filter (\<lambda>x. \<not> strict_eq (item_id x) (Some ident)) items
              else items[i := JObj (obj_set kvs ''qty'' (JNum (q + change) 0))]"
    have sv: "updateQuantity ident change s = saveCart (JArr ?R) s"
      by (rule updateQuantity_saves [OF cart nn found item qty])
    have wfi: "wf_elems items" using getCart_wf [OF cart] by simp
    have "wf_json (JObj kvs)" using wf_nth [OF wfi i] item by simp
    then have "wf_json (JObj (obj_set kvs ''qty'' (JNum (q + change) 0)))" by (rule wf_set_qty)
    then have wf: "wf_json (JArr ?R)" using wfi by (simp add: wf_elems_filter wf_elems_update)
    have cart': "getCart (snd (updateQuantity ident change s)) = Inr (JArr ?R)"
      unfolding sv by (rule getCart_saveCart [OF key wf])
    have "cart_invariant ?R"
    proof (cases "q + change \<le> 0")
      case True
      then show ?thesis using invariant_filtered [OF inv] by simp
    next
      case False
      then have "0 < q + change" by simp
      then show ?thesis using invariant_requantified [OF inv i item] False by simp
    qed
    then show ?thesis using cart' by blast
  qed
qed

lemma removeItem_saves:
  "getCart s = Inr (JArr items) \<Longrightarrow> JNull \<notin> set items
   \<Longrightarrow> removeItem ident s
       = saveCart (JArr (filter (\<lambda>x. \<not> strict_eq (item_id x) (Some ident)) items)) s"
  by (simp add: removeItem_def js_filter_id_is_not)

lemma removeItem_invariant:
  assumes cart: "getCart s = Inr (JArr items)" and inv: "cart_invariant items"
  shows "\<exists>items'. getCart (snd (removeItem ident s)) = Inr (JArr items') \<and> cart_invariant items'"
proof -
  let ?R = "filter (\<lambda>x. \<not> strict_eq (item_id x) (Some ident)) items"
  obtain key where key: "getCartKey s = Inr key" using getCart_key [OF cart] by blast
  have sv: "removeItem ident s = saveCart (JArr ?R) s"
    by (rule removeItem_saves [OF cart invariant_no_null [OF inv]])
  have wf: "wf_json (JArr ?R)" using getCart_wf [OF cart] by (simp add: wf_elems_filter)
  have "getCart (snd (removeItem ident s)) = Inr (JArr ?R)"
    unfolding sv by (rule getCart_saveCart [OF key wf])
  then show ?thesis using invariant_filtered [OF inv] by blast
qed


end
